theory Spec2Isabelle
  imports Main "HOL-Library.Word" "HOL-Library.Multiset" "HOL-Library.Product_Lexorder"
begin

unbundle bit_operations_syntax

section \<open>Perceptual-hash clustering (ImageDeduplicator.find_duplicate_groups)\<close>

text \<open>
  \<^verbatim>\<open>compute_hash\<close> returns \<^verbatim>\<open>str(hash_value)\<close> of an imagehash value computed with the
  library's default \<^verbatim>\<open>hash_size = 8\<close>: 64 bits, printed as exactly 16 lowercase hexadecimal
  digits. Such strings are in bijection with 64-bit words, so a fingerprint is a
  \<open>64 word\<close>, the dictionary key comparison is word equality and \<^verbatim>\<open>int(h, 16)\<close> is \<open>unat h\<close>.
  Opening and hashing the image is the environment: a function from paths to
  \<open>fingerprint option\<close>, \<open>None\<close> where \<^verbatim>\<open>compute_hash\<close> catches an exception and returns
  \<^verbatim>\<open>None\<close>. The threshold is a Python \<^verbatim>\<open>int\<close>.
\<close>

type_synonym path = string

type_synonym fingerprint = "64 word"

text \<open>\<^verbatim>\<open>bin(n).count("1")\<close> for a non-negative \<^verbatim>\<open>n\<close>: the number of 1 digits of its binary numeral.\<close>

fun bin_count1 :: "nat \<Rightarrow> nat" where
  "bin_count1 n = (if n = 0 then 0 else n mod 2 + bin_count1 (n div 2))"

declare bin_count1.simps [simp del]

text \<open>\<^verbatim>\<open>bin(int(img_hash, 16) ^ int(existing_hash, 16)).count("1")\<close>\<close>

definition hamming_distance :: "fingerprint \<Rightarrow> fingerprint \<Rightarrow> int" where
  "hamming_distance img_hash existing_hash =
     int (bin_count1 (unat img_hash XOR unat existing_hash))"

text \<open>
  \<^verbatim>\<open>hash_groups\<close> is a \<^verbatim>\<open>defaultdict(list)\<close>; Python dictionaries keep insertion order, which
  the loop over \<^verbatim>\<open>list(hash_groups.keys())\<close> and the final \<^verbatim>\<open>hash_groups.values()\<close> observe.
  It is modelled as an association list in insertion order.
\<close>

type_synonym hash_groups = "(fingerprint \<times> path list) list"

text \<open>
  The inner loop \<^verbatim>\<open>for existing_hash in list(hash_groups.keys())\<close> with its \<^verbatim>\<open>break\<close>:
  the first key, in insertion order, whose distance is within the threshold.
\<close>

fun first_match :: "int \<Rightarrow> fingerprint \<Rightarrow> fingerprint list \<Rightarrow> fingerprint option" where
  "first_match threshold img_hash [] = None"
| "first_match threshold img_hash (existing_hash # rest) =
     (if hamming_distance img_hash existing_hash \<le> threshold then Some existing_hash
      else first_match threshold img_hash rest)"

text \<open>\<^verbatim>\<open>d[key].append(path)\<close> on a \<^verbatim>\<open>defaultdict(list)\<close>: a missing key is created at the end.\<close>

fun dict_append :: "'k \<Rightarrow> 'v \<Rightarrow> ('k \<times> 'v list) list \<Rightarrow> ('k \<times> 'v list) list" where
  "dict_append key v [] = [(key, [v])]"
| "dict_append key v ((k, vs) # rest) =
     (if k = key then (k, vs @ [v]) # rest else (k, vs) # dict_append key v rest)"

text \<open>One iteration of the outer loop \<^verbatim>\<open>for path in image_paths\<close>.\<close>

definition hash_step ::
  "(path \<Rightarrow> fingerprint option) \<Rightarrow> int \<Rightarrow> hash_groups \<Rightarrow> path \<Rightarrow> hash_groups" where
  "hash_step compute_hash threshold groups path =
     (case compute_hash path of
        None \<Rightarrow> groups
      | Some img_hash \<Rightarrow>
          (case first_match threshold img_hash (map fst groups) of
             Some existing_hash \<Rightarrow> dict_append existing_hash path groups
           | None \<Rightarrow> dict_append img_hash path groups))"

fun hash_loop ::
  "(path \<Rightarrow> fingerprint option) \<Rightarrow> int \<Rightarrow> path list \<Rightarrow> hash_groups \<Rightarrow> hash_groups" where
  "hash_loop compute_hash threshold [] groups = groups"
| "hash_loop compute_hash threshold (path # paths) groups =
     hash_loop compute_hash threshold paths (hash_step compute_hash threshold groups path)"

text \<open>The dictionary after the loop, and the returned list of the groups with more than one member.\<close>

definition hash_groups_of ::
  "(path \<Rightarrow> fingerprint option) \<Rightarrow> int \<Rightarrow> path list \<Rightarrow> hash_groups" where
  "hash_groups_of compute_hash threshold image_paths =
     hash_loop compute_hash threshold image_paths []"

definition find_duplicate_groups ::
  "(path \<Rightarrow> fingerprint option) \<Rightarrow> int \<Rightarrow> path list \<Rightarrow> path list list" where
  "find_duplicate_groups compute_hash threshold image_paths =
     filter (\<lambda>group. length group > 1)
       (map snd (hash_groups_of compute_hash threshold image_paths))"

subsection \<open>Proof devices for the hash clustering\<close>

text \<open>
  The key of the group an image with fingerprint \<open>img_hash\<close> is appended to, given the keys
  present: both branches of \<open>hash_step\<close> append to this key.
\<close>

definition target_key :: "int \<Rightarrow> fingerprint list \<Rightarrow> fingerprint \<Rightarrow> fingerprint" where
  "target_key threshold keys img_hash =
     (case first_match threshold img_hash keys of Some existing_hash \<Rightarrow> existing_hash | None \<Rightarrow> img_hash)"

text \<open>
  The loop invariant: keys are unique, every group is non-empty, its first member has the
  key as fingerprint, and every member would again be sent to the group it is in.
\<close>

definition hash_inv :: "(path \<Rightarrow> fingerprint option) \<Rightarrow> int \<Rightarrow> hash_groups \<Rightarrow> bool" where
  "hash_inv compute_hash threshold groups \<longleftrightarrow>
     distinct (map fst groups) \<and>
     (\<forall>(k, ps) \<in> set groups. ps \<noteq> [] \<and> compute_hash (hd ps) = Some k \<and>
        (\<forall>p \<in> set ps. \<exists>h. compute_hash p = Some h \<and> target_key threshold (map fst groups) h = k))"


text \<open>Example fingerprints: the specification's \<open>1010\<close>, \<open>1010\<close>, \<open>1011\<close>, and a seed with two members.\<close>

definition example_hash :: "path \<Rightarrow> fingerprint option" where
  "example_hash p = (if p = ''a.png'' then Some 10 else if p = ''b.png'' then Some 10
     else if p = ''c.png'' then Some 11 else None)"

definition seed_only_hash :: "path \<Rightarrow> fingerprint option" where
  "seed_only_hash p = (if p = ''s.png'' then Some 0 else if p = ''m1.png'' then Some 1
     else if p = ''m2.png'' then Some 2 else None)"


subsection \<open>The clustering step as the specification words it\<close>

text \<open>
  Written from the specification, for comparison with \<open>hash_step\<close>: the representative at
  minimum Hamming distance (the earliest one on ties) receives the image when that
  minimum is within the threshold; otherwise the image starts a new group.
\<close>

fun nearest_representative :: "fingerprint \<Rightarrow> fingerprint list \<Rightarrow> fingerprint option" where
  "nearest_representative img_hash [] = None"
| "nearest_representative img_hash (k # ks) =
     (case nearest_representative img_hash ks of
        None \<Rightarrow> Some k
      | Some k' \<Rightarrow> if hamming_distance img_hash k \<le> hamming_distance img_hash k' then Some k else Some k')"

definition spec_min_distance_step ::
  "(path \<Rightarrow> fingerprint option) \<Rightarrow> int \<Rightarrow> hash_groups \<Rightarrow> path \<Rightarrow> hash_groups" where
  "spec_min_distance_step compute_hash threshold groups path =
     (case compute_hash path of
        None \<Rightarrow> groups
      | Some img_hash \<Rightarrow>
          (case nearest_representative img_hash (map fst groups) of
             None \<Rightarrow> groups @ [(img_hash, [path])]
           | Some k \<Rightarrow>
               if hamming_distance img_hash k \<le> threshold then dict_append k path groups
               else groups @ [(img_hash, [path])]))"

text \<open>Fingerprints \<open>0000\<close>, \<open>0111\<close> and \<open>0011\<close>: the third is nearer to the second.\<close>

definition nearer_hash :: "path \<Rightarrow> fingerprint option" where
  "nearer_hash p = (if p = ''a.png'' then Some 0 else if p = ''b.png'' then Some 7
     else if p = ''c.png'' then Some 3 else None)"


section \<open>The result tree and the deletion workflow (ImageDeduplicationController)\<close>

text \<open>
  The tree widget holds one top-level item per duplicate group and one child per file: column 1
  is the path, column 0 carries the check state. A checked file is kept, an unchecked file is
  selected for deletion.
\<close>

datatype check_state = Unchecked | PartiallyChecked | Checked

type_synonym file_item = "path \<times> check_state"

type_synonym tree = "file_item list list"

text \<open>The nested loops of \<^verbatim>\<open>get_selected_files_to_delete\<close>: the paths of the unchecked children, in tree order.\<close>

definition get_selected_files_to_delete :: "tree \<Rightarrow> path list" where
  "get_selected_files_to_delete duplicate_tree =
     concat (map (\<lambda>group_item. map fst (filter (\<lambda>file_item. snd file_item = Unchecked) group_item))
       duplicate_tree)"

text \<open>
  The lines written to \<^verbatim>\<open>duplicates.txt\<close>. The fixed texts are Chinese literals; a line is
  represented by its kind and its variable part: the title line, the header of group \<open>i + 1\<close>,
  an indented member path, the header of the deletion list with its count, an indented path
  selected for deletion.
\<close>

datatype audit_line =
    Title
  | GroupHeader nat
  | Member path
  | DeleteHeader nat
  | DeleteEntry path

definition audit_lines :: "path list list \<Rightarrow> path list \<Rightarrow> audit_line list" where
  "audit_lines duplicate_groups files_to_delete =
     Title
     # concat (map (\<lambda>(i, grp). GroupHeader (i + 1) # map Member grp) (enumerate 0 duplicate_groups))
     @ DeleteHeader (length files_to_delete)
     # map DeleteEntry files_to_delete"

text \<open>
  The four log lines of the deletion loop: deleted, still present after \<^verbatim>\<open>os.remove\<close> returned,
  absent before the attempt, \<^verbatim>\<open>os.remove\<close> raised.
\<close>

datatype outcome = Deleted | DeleteFailed | NotFound | DeleteError

text \<open>
  The observable effects of \<^verbatim>\<open>export_results\<close>, in order: the completed \<^verbatim>\<open>with open(...)\<close> block
  that writes the text file (or its failure, which the outer handler reports), the answer to the
  confirmation dialog, each call of \<^verbatim>\<open>os.remove\<close>, each log line, and the final dialog with the
  two counts.
\<close>

datatype event =
    AuditWritten "audit_line list"
  | AuditWriteFailed
  | Confirmed bool
  | RemoveCalled path
  | Logged path outcome
  | Summary nat nat

record 'fs deletion =
  files :: 'fs
  deleted_count :: nat
  error_count :: nat
  events :: "event list"

text \<open>
  The file system is the environment: \<open>path_exists\<close> is \<^verbatim>\<open>os.path.exists\<close> and \<open>os_remove\<close> is
  \<^verbatim>\<open>os.remove\<close>, returning whether it raised and the file system it leaves behind. Both are
  arbitrary, so every deletion behaviour is covered. One iteration of the loop
  \<^verbatim>\<open>for file_path in files_to_delete\<close>:
\<close>

definition delete_one ::
  "('fs \<Rightarrow> path \<Rightarrow> bool) \<Rightarrow> ('fs \<Rightarrow> path \<Rightarrow> bool \<times> 'fs) \<Rightarrow> 'fs deletion \<Rightarrow> path \<Rightarrow> 'fs deletion" where
  "delete_one path_exists os_remove st file_path =
     (if path_exists (files st) file_path then
        (case os_remove (files st) file_path of
           (True, fs') \<Rightarrow>
             st\<lparr>files := fs', error_count := error_count st + 1,
                events := events st @ [RemoveCalled file_path, Logged file_path DeleteError]\<rparr>
         | (False, fs') \<Rightarrow>
             if \<not> path_exists fs' file_path then
               st\<lparr>files := fs', deleted_count := deleted_count st + 1,
                  events := events st @ [RemoveCalled file_path, Logged file_path Deleted]\<rparr>
             else
               st\<lparr>files := fs', error_count := error_count st + 1,
                  events := events st @ [RemoveCalled file_path, Logged file_path DeleteFailed]\<rparr>)
      else st\<lparr>events := events st @ [Logged file_path NotFound]\<rparr>)"

fun delete_loop ::
  "('fs \<Rightarrow> path \<Rightarrow> bool) \<Rightarrow> ('fs \<Rightarrow> path \<Rightarrow> bool \<times> 'fs) \<Rightarrow> path list \<Rightarrow> 'fs deletion \<Rightarrow> 'fs deletion" where
  "delete_loop path_exists os_remove [] st = st"
| "delete_loop path_exists os_remove (file_path # rest) st =
     delete_loop path_exists os_remove rest (delete_one path_exists os_remove st file_path)"

text \<open>
  \<^verbatim>\<open>export_results\<close>: \<open>directory\<close> is the answer of the directory dialog (empty when cancelled),
  \<open>write_ok\<close> whether writing the text file completes without an exception, \<open>reply_yes\<close> the answer
  to the confirmation dialog.
\<close>

definition export_results ::
  "('fs \<Rightarrow> path \<Rightarrow> bool) \<Rightarrow> ('fs \<Rightarrow> path \<Rightarrow> bool \<times> 'fs) \<Rightarrow>
   path list list \<Rightarrow> tree \<Rightarrow> string \<Rightarrow> bool \<Rightarrow> bool \<Rightarrow> 'fs \<Rightarrow> 'fs deletion" where
  "export_results path_exists os_remove duplicate_groups duplicate_tree directory write_ok reply_yes fs =
     (let idle = \<lparr>files = fs, deleted_count = 0, error_count = 0, events = []\<rparr> in
      if duplicate_groups = [] then idle
      else if directory = [] then idle
      else
        let files_to_delete = get_selected_files_to_delete duplicate_tree in
        if files_to_delete = [] then idle
        else if \<not> write_ok then idle\<lparr>events := [AuditWriteFailed]\<rparr>
        else
          let written = idle\<lparr>events := [AuditWritten (audit_lines duplicate_groups files_to_delete),
                                        Confirmed reply_yes]\<rparr> in
          if reply_yes then
            (let st = delete_loop path_exists os_remove files_to_delete written
             in st\<lparr>events := events st @ [Summary (deleted_count st) (error_count st)]\<rparr>)
          else written)"

text \<open>Readings of an event list: the per-entry outcomes and the paths handed to \<^verbatim>\<open>os.remove\<close>.\<close>

definition outcomes :: "event list \<Rightarrow> (path \<times> outcome) list" where
  "outcomes evs = List.map_filter (\<lambda>e. case e of Logged p out \<Rightarrow> Some (p, out) | _ \<Rightarrow> None) evs"

definition is_failure :: "outcome \<Rightarrow> bool" where
  "is_failure out \<longleftrightarrow> out = DeleteFailed \<or> out = DeleteError"

text \<open>A fake file system (the list of existing paths) whose deletion raises for one path.\<close>

definition fake_exists :: "path list \<Rightarrow> path \<Rightarrow> bool" where
  "fake_exists fs p \<longleftrightarrow> p \<in> set fs"

definition fake_remove :: "path list \<Rightarrow> path \<Rightarrow> bool \<times> path list" where
  "fake_remove fs p = (if p = ''b.png'' then (True, fs) else (False, removeAll p fs))"

definition remove_calls :: "event list \<Rightarrow> path list" where
  "remove_calls evs = List.map_filter (\<lambda>e. case e of RemoveCalled p \<Rightarrow> Some p | _ \<Rightarrow> None) evs"

definition example_groups :: "path list list" where
  "example_groups = [[''k.png'', ''a.png'', ''b.png'', ''c.png'']]"

definition example_tree :: tree where
  "example_tree = [[(''k.png'', Checked), (''a.png'', Unchecked), (''b.png'', Unchecked), (''c.png'', Unchecked)]]"

definition example_files :: "path list" where
  "example_files = [''k.png'', ''a.png'', ''b.png'', ''c.png'']"

subsection \<open>The deletion report as the specification words it\<close>

text \<open>
  Written from the specification, for comparison with the loop of \<open>export_results\<close>: each entry
  of the plan is attempted in order against the file system the earlier attempts left behind.
  An entry that is already absent is not found and is not handed to the deletion service; any
  other entry is handed to it, and is deleted when the service returns and the file is gone,
  failed when the service raises or the file is still there.
\<close>

definition attempt_outcome ::
  "('fs \<Rightarrow> path \<Rightarrow> bool) \<Rightarrow> ('fs \<Rightarrow> path \<Rightarrow> bool \<times> 'fs) \<Rightarrow> 'fs \<Rightarrow> path \<Rightarrow> outcome" where
  "attempt_outcome path_exists os_remove fs file_path =
     (if \<not> path_exists fs file_path then NotFound
      else if fst (os_remove fs file_path) then DeleteError
      else if path_exists (snd (os_remove fs file_path)) file_path then DeleteFailed
      else Deleted)"

definition files_after_attempt ::
  "('fs \<Rightarrow> path \<Rightarrow> bool) \<Rightarrow> ('fs \<Rightarrow> path \<Rightarrow> bool \<times> 'fs) \<Rightarrow> 'fs \<Rightarrow> path \<Rightarrow> 'fs" where
  "files_after_attempt path_exists os_remove fs file_path =
     (if path_exists fs file_path then snd (os_remove fs file_path) else fs)"

fun expected_report ::
  "('fs \<Rightarrow> path \<Rightarrow> bool) \<Rightarrow> ('fs \<Rightarrow> path \<Rightarrow> bool \<times> 'fs) \<Rightarrow> 'fs \<Rightarrow> path list \<Rightarrow> (path \<times> outcome) list" where
  "expected_report path_exists os_remove fs [] = []"
| "expected_report path_exists os_remove fs (file_path # plan) =
     (file_path, attempt_outcome path_exists os_remove fs file_path)
     # expected_report path_exists os_remove (files_after_attempt path_exists os_remove fs file_path) plan"

fun files_after ::
  "('fs \<Rightarrow> path \<Rightarrow> bool) \<Rightarrow> ('fs \<Rightarrow> path \<Rightarrow> bool \<times> 'fs) \<Rightarrow> 'fs \<Rightarrow> path list \<Rightarrow> 'fs" where
  "files_after path_exists os_remove fs [] = fs"
| "files_after path_exists os_remove fs (file_path # plan) =
     files_after path_exists os_remove (files_after_attempt path_exists os_remove fs file_path) plan"

text \<open>A deletion service that raises for every path.\<close>

definition raising_remove :: "path list \<Rightarrow> path \<Rightarrow> bool \<times> path list" where
  "raising_remove fs p = (True, fs)"

section \<open>Feature clustering (ImageDeduplicator.find_duplicate_groups_by_sift)\<close>

text \<open>
  Descriptor arrays are opaque values of a type \<open>'d\<close>. The environment is \<open>detect\<close>, which opens
  an image and computes its descriptors (\<open>None\<close> when an exception is caught or when
  \<^verbatim>\<open>detectAndCompute\<close> returns no descriptors), and \<open>good_matches\<close>, the number of matches of
  \<^verbatim>\<open>knnMatch(des1, des2, k=2)\<close> that pass the ratio test (\<open>None\<close> when the \<^verbatim>\<open>try\<close> block raises).
  The floating-point ratio test lives inside \<open>good_matches\<close>.

  \<^verbatim>\<open>features[path] = des\<close> on a dictionary: a present key keeps its position.
\<close>

fun dict_set :: "'k \<Rightarrow> 'v \<Rightarrow> ('k \<times> 'v) list \<Rightarrow> ('k \<times> 'v) list" where
  "dict_set key v [] = [(key, v)]"
| "dict_set key v ((k, v') # rest) =
     (if k = key then (k, v) # rest else (k, v') # dict_set key v rest)"

text \<open>The first loop: the dictionary \<^verbatim>\<open>features\<close>, in insertion order.\<close>

fun compute_features :: "(path \<Rightarrow> 'd option) \<Rightarrow> path list \<Rightarrow> (path \<times> 'd) list \<Rightarrow> (path \<times> 'd) list" where
  "compute_features detect [] features = features"
| "compute_features detect (path # paths) features =
     compute_features detect paths
       (case detect path of None \<Rightarrow> features | Some des \<Rightarrow> dict_set path des features)"

text \<open>
  A call of \<^verbatim>\<open>knnMatch\<close> is recorded as the seed, the candidate and whether the candidate was
  appended to the seed's group.
\<close>

type_synonym comparison = "path \<times> path \<times> bool"

text \<open>
  The inner loop \<^verbatim>\<open>for j, path2 in enumerate(paths[i+1:], i+1)\<close>, with the group under
  construction, the set \<^verbatim>\<open>processed\<close> and the record of comparisons.
\<close>

fun scan ::
  "('d \<Rightarrow> 'd \<Rightarrow> nat option) \<Rightarrow> int \<Rightarrow> path \<Rightarrow> 'd \<Rightarrow> (path \<times> 'd) list \<Rightarrow>
   path list \<times> path set \<times> comparison list \<Rightarrow> path list \<times> path set \<times> comparison list" where
  "scan good_matches min_matches path1 des1 [] acc = acc"
| "scan good_matches min_matches path1 des1 ((path2, des2) # rest) (grp, processed, compared) =
     (if path2 \<in> processed then
        scan good_matches min_matches path1 des1 rest (grp, processed, compared)
      else
        (case good_matches des1 des2 of
           None \<Rightarrow>
             scan good_matches min_matches path1 des1 rest
               (grp, processed, compared @ [(path1, path2, False)])
         | Some n \<Rightarrow>
             if int n \<ge> min_matches then
               scan good_matches min_matches path1 des1 rest
                 (grp @ [path2], insert path2 processed, compared @ [(path1, path2, True)])
             else
               scan good_matches min_matches path1 des1 rest
                 (grp, processed, compared @ [(path1, path2, False)])))"

text \<open>The outer loop \<^verbatim>\<open>for i, path1 in enumerate(paths)\<close>; \<open>rest\<close> is \<^verbatim>\<open>paths[i+1:]\<close>.\<close>

record sift_state =
  sift_processed :: "path set"
  sift_groups :: "path list list"
  sift_compared :: "comparison list"

fun sift_loop ::
  "('d \<Rightarrow> 'd \<Rightarrow> nat option) \<Rightarrow> int \<Rightarrow> (path \<times> 'd) list \<Rightarrow> sift_state \<Rightarrow> sift_state" where
  "sift_loop good_matches min_matches [] st = st"
| "sift_loop good_matches min_matches ((path1, des1) # rest) st =
     (if path1 \<in> sift_processed st then sift_loop good_matches min_matches rest st
      else
        (case scan good_matches min_matches path1 des1 rest
                ([path1], sift_processed st, sift_compared st) of
           (grp, processed, compared) \<Rightarrow>
             if length grp > 1 then
               sift_loop good_matches min_matches rest
                 \<lparr>sift_processed = insert path1 processed, sift_groups = sift_groups st @ [grp],
                  sift_compared = compared\<rparr>
             else
               sift_loop good_matches min_matches rest
                 \<lparr>sift_processed = processed, sift_groups = sift_groups st,
                  sift_compared = compared\<rparr>))"

definition sift_run ::
  "(path \<Rightarrow> 'd option) \<Rightarrow> ('d \<Rightarrow> 'd \<Rightarrow> nat option) \<Rightarrow> int \<Rightarrow> path list \<Rightarrow> sift_state" where
  "sift_run detect good_matches min_matches image_paths =
     sift_loop good_matches min_matches (compute_features detect image_paths [])
       \<lparr>sift_processed = {}, sift_groups = [], sift_compared = []\<rparr>"

definition find_duplicate_groups_by_sift ::
  "(path \<Rightarrow> 'd option) \<Rightarrow> ('d \<Rightarrow> 'd \<Rightarrow> nat option) \<Rightarrow> int \<Rightarrow> path list \<Rightarrow> path list list" where
  "find_duplicate_groups_by_sift detect good_matches min_matches image_paths =
     sift_groups (sift_run detect good_matches min_matches image_paths)"

text \<open>Three images with descriptors; the first matches the second, the second the third.\<close>

definition example_detect :: "path \<Rightarrow> nat option" where
  "example_detect p = (if p = ''a.png'' then Some 1 else if p = ''b.png'' then Some 2
     else if p = ''c.png'' then Some 3 else None)"

definition chain_matches :: "nat \<Rightarrow> nat \<Rightarrow> nat option" where
  "chain_matches d1 d2 = (if (d1 = 1 \<and> d2 = 2) \<or> (d1 = 2 \<and> d2 = 3) then Some 12 else Some 0)"

definition no_matches :: "nat \<Rightarrow> nat \<Rightarrow> nat option" where
  "no_matches d1 d2 = Some 0"

subsection \<open>Proof devices for the feature clustering\<close>

text \<open>
  Readings of a comparison, the candidates a list of comparisons appended, the relation that
  holds between an earlier and a later comparison, and the invariant of the outer loop over the
  remaining paths.
\<close>

definition seed :: "comparison \<Rightarrow> path" where
  "seed e = fst e"

definition cand :: "comparison \<Rightarrow> path" where
  "cand e = fst (snd e)"

definition matched :: "comparison \<Rightarrow> bool" where
  "matched e = snd (snd e)"

definition joined :: "comparison list \<Rightarrow> path list" where
  "joined new = map cand (filter matched new)"

definition compat :: "comparison \<Rightarrow> comparison \<Rightarrow> bool" where
  "compat e e' \<longleftrightarrow>
     cand e' \<noteq> seed e \<and> (matched e \<longrightarrow> cand e' \<noteq> cand e \<and> seed e' \<noteq> cand e)"

definition sift_inv :: "path list \<Rightarrow> sift_state \<Rightarrow> bool" where
  "sift_inv remaining st \<longleftrightarrow>
     distinct (concat (sift_groups st)) \<and>
     set (concat (sift_groups st)) \<subseteq> sift_processed st \<and>
     (\<forall>g \<in> set (sift_groups st). 1 < length g) \<and>
     (\<forall>e \<in> set (sift_compared st).
        (matched e \<longrightarrow> cand e \<in> sift_processed st) \<and> seed e \<notin> set remaining) \<and>
     sorted_wrt compat (sift_compared st)"

text \<open>
  Whether the candidate is appended, as the \<^verbatim>\<open>try\<close> block of the inner loop decides it, and
  what it means for a recorded comparison to be accounted for by the feature dictionary.
\<close>

definition decides :: "('d \<Rightarrow> 'd \<Rightarrow> nat option) \<Rightarrow> int \<Rightarrow> 'd \<Rightarrow> 'd \<Rightarrow> bool" where
  "decides good_matches min_matches des1 des2 =
     (case good_matches des1 des2 of None \<Rightarrow> False | Some n \<Rightarrow> min_matches \<le> int n)"

definition explained ::
  "('d \<Rightarrow> 'd \<Rightarrow> nat option) \<Rightarrow> int \<Rightarrow> (path \<times> 'd) set \<Rightarrow> comparison \<Rightarrow> bool" where
  "explained good_matches min_matches features e \<longleftrightarrow>
     (\<exists>des1 des2. (seed e, des1) \<in> features \<and> (cand e, des2) \<in> features \<and>
        matched e = decides good_matches min_matches des1 des2)"

text \<open>A matcher that raises for one pair and finds no good match for any other.\<close>

definition partial_matches :: "nat \<Rightarrow> nat \<Rightarrow> nat option" where
  "partial_matches d1 d2 = (if d1 = 1 \<and> d2 = 2 then None else Some 0)"

text \<open>A fingerprint function for an input that names one file twice.\<close>

definition twice_hash :: "path \<Rightarrow> fingerprint option" where
  "twice_hash p = (if p = ''a.png'' then Some 10 else None)"


section \<open>Check states of the result tree (on_selection_changed, auto_select_files)\<close>

text \<open>
  The children of one group item, with the loop of \<^verbatim>\<open>on_selection_changed\<close> that counts the
  children whose check state is \<^verbatim>\<open>Qt.Checked\<close>.
\<close>

definition selected_count :: "file_item list \<Rightarrow> nat" where
  "selected_count children = length (filter (\<lambda>child. snd child = Checked) children)"

text \<open>
  \<^verbatim>\<open>setCheckState(0, v)\<close> on the child \<open>j\<close> of a populated group stores the value and, when it
  differs from the stored one, emits \<^verbatim>\<open>itemChanged(item, 0)\<close>, which is connected to
  \<^verbatim>\<open>on_selection_changed\<close>; the handler runs before \<^verbatim>\<open>setCheckState\<close> returns, and its own
  \<^verbatim>\<open>item.setCheckState(0, Qt.Checked)\<close> enters the handler again. The two are therefore mutually
  recursive. The second component counts the warning dialogs shown. The handler is modelled
  for file items: for a group item \<^verbatim>\<open>item.parent()\<close> is empty and it returns at once.
\<close>

function set_check_state :: "file_item list \<Rightarrow> nat \<Rightarrow> check_state \<Rightarrow> file_item list \<times> nat"
  and on_selection_changed :: "file_item list \<Rightarrow> nat \<Rightarrow> nat \<Rightarrow> file_item list \<times> nat" where
  "set_check_state children j v =
     (if j < length children \<and> snd (children ! j) \<noteq> v
      then on_selection_changed (children[j := (fst (children ! j), v)]) j 0
      else (children, 0))"
| "on_selection_changed children j column =
     (if column \<noteq> 0 then (children, 0)
      else if selected_count children = 0 then
        (case set_check_state children j Checked of (children', warnings) \<Rightarrow> (children', Suc warnings))
      else (children, 0))"
  by pat_completeness auto

termination
proof (relation "measure (\<lambda>x. case x of
          Inl (children, j, v) \<Rightarrow> (if v = Checked then 1 else 3)
        | Inr (children, j, column) \<Rightarrow> (if selected_count children = 0 then 2 else 0))")
  show "wf (measure (\<lambda>x. case x of
          Inl (children, j, v) \<Rightarrow> (if v = Checked then 1 else 3)
        | Inr (children, j, column) \<Rightarrow> (if selected_count children = 0 then 2 else (0::nat))))"
    by simp
next
  fix children :: "file_item list" and j :: nat and v :: check_state
  assume a: "j < length children \<and> snd (children ! j) \<noteq> v"
  have "v = Checked \<Longrightarrow> selected_count (children[j := (fst (children ! j), v)]) \<noteq> 0"
  proof -
    assume "v = Checked"
    then have "(fst (children ! j), Checked) \<in> set (children[j := (fst (children ! j), v)])"
      using a by (simp add: set_update_memI)
    then show ?thesis by (force simp: selected_count_def filter_empty_conv)
  qed
  then show "(Inr (children[j := (fst (children ! j), v)], j, 0), Inl (children, j, v))
      \<in> measure (\<lambda>x. case x of
          Inl (children, j, v) \<Rightarrow> (if v = Checked then 1 else 3)
        | Inr (children, j, column) \<Rightarrow> (if selected_count children = 0 then 2 else 0))"
    by auto
next
  fix children :: "file_item list" and j column :: nat
  assume "\<not> column \<noteq> 0" "selected_count children = 0"
  then show "(Inl (children, j, Checked), Inr (children, j, column))
      \<in> measure (\<lambda>x. case x of
          Inl (children, j, v) \<Rightarrow> (if v = Checked then 1 else 3)
        | Inr (children, j, column) \<Rightarrow> (if selected_count children = 0 then 2 else 0))"
    by simp
qed

text \<open>A click on the check box of a file item flips it between checked and unchecked.\<close>

definition toggle :: "file_item list \<Rightarrow> nat \<Rightarrow> file_item list \<times> nat" where
  "toggle children j =
     set_check_state children j (if snd (children ! j) = Checked then Unchecked else Checked)"

text \<open>
  \<^verbatim>\<open>auto_select_files\<close>, for one group. \<open>stat\<close> is the environment: \<^verbatim>\<open>os.path.getsize\<close> and
  \<^verbatim>\<open>os.path.getmtime\<close> of a path, \<open>None\<close> when either raises (the bare \<^verbatim>\<open>except\<close> then records
  size 0 and time 0). The modification time is a value of any linear order with a zero, which
  covers the floats \<^verbatim>\<open>getmtime\<close> returns.
\<close>

definition file_info ::
  "(path \<Rightarrow> (nat \<times> 't) option) \<Rightarrow> file_item list \<Rightarrow> (nat \<times> nat \<times> 't::{linorder, zero}) list" where
  "file_info stat children =
     map (\<lambda>(j, child). case stat (fst child) of
                            Some (file_size, mtime) \<Rightarrow> (j, file_size, mtime)
                          | None \<Rightarrow> (j, 0, 0))
       (enumerate 0 children)"

text \<open>
  \<^verbatim>\<open>file_info.sort(key=lambda x: (x[1], x[2]), reverse=True)\<close>: tuples compare
  lexicographically, and a reversed sort keeps the original order of equal keys (the list is
  reversed, sorted stably in ascending order, and reversed again).
\<close>

definition sort_key_of :: "nat \<times> nat \<times> 't \<Rightarrow> nat \<times> 't" where
  "sort_key_of x = (fst (snd x), snd (snd x))"

definition sort_reverse :: "(nat \<times> nat \<times> 't::linorder) list \<Rightarrow> (nat \<times> nat \<times> 't) list" where
  "sort_reverse infos = rev (sort_key sort_key_of (rev infos))"

text \<open>The loop \<^verbatim>\<open>for idx, (j, _, _) in enumerate(file_info)\<close>.\<close>

fun apply_selection ::
  "nat \<Rightarrow> (nat \<times> nat \<times> 't) list \<Rightarrow> file_item list \<times> nat \<Rightarrow> file_item list \<times> nat" where
  "apply_selection idx [] acc = acc"
| "apply_selection idx ((j, file_size, mtime) # rest) (children, warnings) =
     (case set_check_state children j (if idx = 0 then Checked else Unchecked) of
        (children', w) \<Rightarrow> apply_selection (Suc idx) rest (children', warnings + w))"

definition auto_select_group ::
  "(path \<Rightarrow> (nat \<times> 't::{linorder, zero}) option) \<Rightarrow> file_item list \<Rightarrow> file_item list \<times> nat" where
  "auto_select_group stat children =
     apply_selection 0 (sort_reverse (file_info stat children)) (children, 0)"

definition auto_select_files ::
  "(path \<Rightarrow> (nat \<times> 't::{linorder, zero}) option) \<Rightarrow> tree \<Rightarrow> tree" where
  "auto_select_files stat duplicate_tree = map (\<lambda>group_item. fst (auto_select_group stat group_item)) duplicate_tree"




section \<open>Properties of the hash clustering\<close>

lemma bin_count1_0_iff: "bin_count1 n = 0 \<longleftrightarrow> n = 0"
proof (induction n rule: bin_count1.induct)
  case (1 n)
  show ?case
  proof (cases "n = 0")
    case True then show ?thesis by (simp add: bin_count1.simps)
  next
    case False
    with 1 have ih: "bin_count1 (n div 2) = 0 \<longleftrightarrow> n div 2 = 0" by simp
    have "bin_count1 n = n mod 2 + bin_count1 (n div 2)" using False by (subst bin_count1.simps) simp
    with ih False show ?thesis by (auto simp: div_eq_0_iff) 
  qed
qed

lemma word_xor_eq_0_iff: "(a::fingerprint) XOR b = 0 \<longleftrightarrow> a = b"
  by (metis bit.xor_left_self xor.right_neutral)

lemma hamming_distance_le_0_iff: "hamming_distance a b \<le> 0 \<longleftrightarrow> a = b"
proof -
  have "unat a XOR unat b = unat (a XOR b)" by (simp add: unsigned_xor_eq)
  then have "hamming_distance a b \<le> 0 \<longleftrightarrow> a XOR b = 0"
    by (simp add: hamming_distance_def bin_count1_0_iff unat_eq_0)
  then show ?thesis by (simp add: word_xor_eq_0_iff)
qed

lemma hamming_distance_nonneg: "0 \<le> hamming_distance a b"
  by (simp add: hamming_distance_def)

lemma hamming_distance_self: "hamming_distance a a = 0"
  by (simp add: hamming_distance_def bin_count1.simps)

lemma first_match_Some: "first_match t h ks = Some k \<Longrightarrow> k \<in> set ks \<and> hamming_distance h k \<le> t"
  by (induction ks) (auto split: if_splits)

lemma first_match_None_iff: "first_match t h ks = None \<longleftrightarrow> (\<forall>k \<in> set ks. \<not> hamming_distance h k \<le> t)"
  by (induction ks) auto

lemma first_match_append:
  "first_match t h (ks @ ks') = (case first_match t h ks of Some k \<Rightarrow> Some k | None \<Rightarrow> first_match t h ks')"
  by (induction ks) auto

lemma first_match_neg: "t < 0 \<Longrightarrow> first_match t h ks = None"
  using hamming_distance_nonneg [of h] by (induction ks) (auto simp: not_le intro: less_le_trans)

lemma first_match_least:
  "first_match t h ks = Some k \<Longrightarrow>
     \<exists>i < length ks. ks ! i = k \<and> hamming_distance h k \<le> t \<and> (\<forall>j < i. \<not> hamming_distance h (ks ! j) \<le> t)"
proof (induction ks)
  case Nil then show ?case by simp
next
  case (Cons a ks)
  show ?case
  proof (cases "hamming_distance h a \<le> t")
    case True
    with Cons.prems have "a = k" by simp
    with True show ?thesis by (intro exI [of _ 0]) simp
  next
    case False
    with Cons obtain i where i: "i < length ks" "ks ! i = k" "hamming_distance h k \<le> t"
      "\<forall>j < i. \<not> hamming_distance h (ks ! j) \<le> t" by auto
    show ?thesis
    proof (intro exI [of _ "Suc i"] conjI allI impI)
      fix j assume "j < Suc i"
      then show "\<not> hamming_distance h ((a # ks) ! j) \<le> t" using False i(4) by (cases j) auto
    qed (use i in auto)
  qed
qed

lemma map_fst_dict_append:
  "map fst (dict_append k v gs) = (if k \<in> fst ` set gs then map fst gs else map fst gs @ [k])"
  by (induction gs) (auto, force)

lemma set_dict_append:
  "set (dict_append k v gs) \<subseteq> set gs \<union> {(k, vs @ [v]) | vs. (k, vs) \<in> set gs} \<union> (if k \<in> fst ` set gs then {} else {(k, [v])})"
  by (induction gs) (auto split: if_splits)

lemma dict_append_new: "k \<notin> fst ` set gs \<Longrightarrow> dict_append k v gs = gs @ [(k, [v])]"
  by (induction gs) auto

lemma dict_append_nth:
  "i < length gs \<Longrightarrow> fst (gs ! i) = k \<Longrightarrow> (\<forall>j < i. fst (gs ! j) \<noteq> k) \<Longrightarrow>
     dict_append k v gs = gs[i := (k, snd (gs ! i) @ [v])]"
proof (induction gs arbitrary: i)
  case Nil then show ?case by simp
next
  case (Cons g gs)
  obtain k' vs where g: "g = (k', vs)" by (cases g)
  show ?case
  proof (cases i)
    case 0 with Cons.prems g show ?thesis by simp
  next
    case (Suc i')
    with Cons.prems have "k' \<noteq> k" using g by auto
    moreover have "dict_append k v gs = gs[i' := (k, snd (gs ! i') @ [v])]"
      using Cons.prems Suc by (intro Cons.IH) auto
    ultimately show ?thesis using g Suc by simp
  qed
qed

lemma mset_concat_dict_append:
  "mset (concat (map snd (dict_append k v gs))) = add_mset v (mset (concat (map snd gs)))"
  by (induction gs) auto

lemma hash_step_target:
  "compute_hash p = Some h \<Longrightarrow>
     hash_step compute_hash t gs p = dict_append (target_key t (map fst gs) h) p gs"
  by (simp add: hash_step_def target_key_def split: option.splits)

lemma target_key_in_or_self: "target_key t ks h \<in> set ks \<or> target_key t ks h = h"
  by (auto simp: target_key_def dest: first_match_Some split: option.splits)

lemma target_key_close: "0 \<le> t \<Longrightarrow> hamming_distance h (target_key t ks h) \<le> t"
  by (auto simp: target_key_def hamming_distance_self dest: first_match_Some split: option.splits)

lemma target_key_extend:
  assumes "target_key t ks h \<in> set ks"
  shows "target_key t (ks @ [k']) h = target_key t ks h"
proof (cases "first_match t h ks")
  case (Some k)
  then show ?thesis by (simp add: target_key_def first_match_append)
next
  case None
  then have "target_key t ks h = h" by (simp add: target_key_def)
  with assms have "h \<in> set ks" by simp
  with None have "\<not> hamming_distance h h \<le> t" by (simp add: first_match_None_iff)
  then have "t < 0" by (simp add: hamming_distance_self)
  then show ?thesis by (simp add: target_key_def first_match_neg)
qed

lemma target_key_new: "first_match t h ks = None \<Longrightarrow> target_key t (ks @ [h]) h = h"
  by (simp add: target_key_def first_match_append)

lemma hash_inv_empty: "hash_inv compute_hash t []"
  by (simp add: hash_inv_def)

lemma hash_inv_step:
  assumes inv: "hash_inv compute_hash t gs"
  shows "hash_inv compute_hash t (hash_step compute_hash t gs p)"
proof (cases "compute_hash p")
  case None
  with inv show ?thesis by (simp add: hash_step_def)
next
  case (Some h)
  define k where "k = target_key t (map fst gs) h"
  have step: "hash_step compute_hash t gs p = dict_append k p gs"
    using Some by (simp add: hash_step_target k_def)
  show ?thesis
  proof (cases "k \<in> fst ` set gs")
    case True
    have keys: "map fst (dict_append k p gs) = map fst gs"
      using True by (simp add: map_fst_dict_append)
    have mem: "set (dict_append k p gs) \<subseteq> set gs \<union> {(k, vs @ [p]) | vs. (k, vs) \<in> set gs}"
      using set_dict_append [of k p gs] True by auto
    show ?thesis unfolding step hash_inv_def keys
    proof (intro conjI ballI)
      show "distinct (map fst gs)" using inv by (simp add: hash_inv_def)
    next
      fix x assume x: "x \<in> set (dict_append k p gs)"
      obtain k' ps' where xk: "x = (k', ps')" by (cases x)
      from x mem xk consider "(k', ps') \<in> set gs" | vs where "k' = k" "ps' = vs @ [p]" "(k, vs) \<in> set gs"
        by auto
      then have "ps' \<noteq> [] \<and> compute_hash (hd ps') = Some k' \<and>
        (\<forall>p \<in> set ps'. \<exists>h. compute_hash p = Some h \<and> target_key t (map fst gs) h = k')"
      proof cases
        case 1
        with inv show ?thesis by (auto simp: hash_inv_def)
      next
        case 2
        from inv 2(3) have vs: "vs \<noteq> []" "compute_hash (hd vs) = Some k"
          "\<forall>p \<in> set vs. \<exists>h. compute_hash p = Some h \<and> target_key t (map fst gs) h = k"
          by (auto simp: hash_inv_def)
        with 2 Some k_def show ?thesis by auto
      qed
      with xk show "case x of (k, ps) \<Rightarrow> ps \<noteq> [] \<and> compute_hash (hd ps) = Some k \<and>
        (\<forall>p \<in> set ps. \<exists>h. compute_hash p = Some h \<and> target_key t (map fst gs) h = k)" by simp
    qed
  next
    case False
    have kh: "k = h" using target_key_in_or_self [of t "map fst gs" h] False by (auto simp: k_def)
    have fm: "first_match t h (map fst gs) = None"
    proof (cases "first_match t h (map fst gs)")
      case (Some k')
      then have "k = k'" "k' \<in> set (map fst gs)" by (auto simp: k_def target_key_def dest: first_match_Some)
      with False show ?thesis by simp
    qed simp
    have keys: "map fst (dict_append k p gs) = map fst gs @ [h]"
      using False kh by (simp add: map_fst_dict_append)
    have app: "dict_append k p gs = gs @ [(h, [p])]" using False kh by (simp add: dict_append_new)
    show ?thesis unfolding step hash_inv_def keys
    proof (intro conjI ballI)
      show "distinct (map fst gs @ [h])" using inv False kh by (simp add: hash_inv_def)
    next
      fix x assume x: "x \<in> set (dict_append k p gs)"
      obtain k' ps' where xk: "x = (k', ps')" by (cases x)
      from x xk app consider "(k', ps') \<in> set gs" | "k' = h" "ps' = [p]" by auto
      then have "ps' \<noteq> [] \<and> compute_hash (hd ps') = Some k' \<and>
        (\<forall>p \<in> set ps'. \<exists>h'. compute_hash p = Some h' \<and> target_key t (map fst gs @ [h]) h' = k')"
      proof cases
        case 1
        then have k'in: "k' \<in> set (map fst gs)" by force
        from inv 1 have old: "ps' \<noteq> []" "compute_hash (hd ps') = Some k'"
          "\<forall>p \<in> set ps'. \<exists>h'. compute_hash p = Some h' \<and> target_key t (map fst gs) h' = k'"
          by (auto simp: hash_inv_def)
        have "\<exists>h'. compute_hash q = Some h' \<and> target_key t (map fst gs @ [h]) h' = k'" if "q \<in> set ps'" for q
        proof -
          from old(3) that obtain h' where h': "compute_hash q = Some h'" "target_key t (map fst gs) h' = k'" by auto
          with k'in have "target_key t (map fst gs @ [h]) h' = k'" by (simp add: target_key_extend)
          with h' show ?thesis by simp
        qed
        with old show ?thesis by blast
      next
        case 2
        with Some fm show ?thesis by (simp add: target_key_new)
      qed
      with xk show "case x of (k, ps) \<Rightarrow> ps \<noteq> [] \<and> compute_hash (hd ps) = Some k \<and>
        (\<forall>p \<in> set ps. \<exists>ha. compute_hash p = Some ha \<and> target_key t (map fst gs @ [h]) ha = k)" by simp
    qed
  qed
qed

lemma hash_inv_loop:
  "hash_inv compute_hash t gs \<Longrightarrow> hash_inv compute_hash t (hash_loop compute_hash t paths gs)"
  by (induction paths arbitrary: gs) (auto intro: hash_inv_step)

lemma hash_inv_groups_of: "hash_inv compute_hash t (hash_groups_of compute_hash t paths)"
  by (simp add: hash_groups_of_def hash_inv_loop hash_inv_empty)

lemma hash_loop_append:
  "hash_loop compute_hash t (xs @ ys) gs = hash_loop compute_hash t ys (hash_loop compute_hash t xs gs)"
  by (induction xs arbitrary: gs) auto

lemma bin_count1_rec: "bin_count1 n = n mod 2 + bin_count1 (n div 2)"
  by (cases "n = 0") (simp_all add: bin_count1.simps)

lemma xor_div_2: "((x::nat) XOR y) div 2 = x div 2 XOR y div 2"
  by (subst xor_rec [of x y]) simp

lemma xor_mod_2_le: "((x::nat) XOR y) mod 2 \<le> x mod 2 + y mod 2"
  by (simp add: mod_2_eq_odd even_xor_iff)

lemma bin_count1_xor_le: "bin_count1 (x XOR y) \<le> bin_count1 x + bin_count1 y"
proof (induction x arbitrary: y rule: bin_count1.induct)
  case (1 x)
  show ?case
  proof (cases "x = 0")
    case True then show ?thesis by simp
  next
    case False
    have ih: "bin_count1 (x div 2 XOR y div 2) \<le> bin_count1 (x div 2) + bin_count1 (y div 2)"
      using 1 False by simp
    have "bin_count1 (x XOR y) = (x XOR y) mod 2 + bin_count1 (x div 2 XOR y div 2)"
      using bin_count1_rec [of "x XOR y"] by (simp only: xor_div_2)
    also have "\<dots> \<le> (x mod 2 + y mod 2) + (bin_count1 (x div 2) + bin_count1 (y div 2))"
      by (rule add_mono [OF xor_mod_2_le ih])
    also have "\<dots> = (x mod 2 + bin_count1 (x div 2)) + (y mod 2 + bin_count1 (y div 2))"
      by (simp only: ac_simps)
    also have "\<dots> = bin_count1 x + bin_count1 y"
      by (simp only: bin_count1_rec [symmetric])
    finally show ?thesis .
  qed
qed

lemma hamming_triangle: "hamming_distance a b \<le> hamming_distance a c + hamming_distance c b"
proof -
  have "unat a XOR unat b = (unat a XOR unat c) XOR (unat c XOR unat b)"
    by (metis xor.assoc xor_self_eq xor.left_neutral)
  then show ?thesis
    using bin_count1_xor_le [of "unat a XOR unat c" "unat c XOR unat b"]
    by (simp add: hamming_distance_def)
qed

lemma hamming_distance_commute: "hamming_distance a b = hamming_distance b a"
  by (simp add: hamming_distance_def xor.commute)

lemma find_duplicate_groups_mem:
  "g \<in> set (find_duplicate_groups compute_hash t paths) \<Longrightarrow>
     \<exists>k. (k, g) \<in> set (hash_groups_of compute_hash t paths) \<and> 1 < length g"
  by (auto simp: find_duplicate_groups_def)

lemma group_member_seed:
  assumes "g \<in> set (find_duplicate_groups compute_hash t paths)" "p \<in> set g"
  shows "\<exists>k h. compute_hash (hd g) = Some k \<and> compute_hash p = Some h \<and>
           target_key t (map fst (hash_groups_of compute_hash t paths)) h = k"
proof -
  from assms(1) obtain k where k: "(k, g) \<in> set (hash_groups_of compute_hash t paths)"
    using find_duplicate_groups_mem by blast
  with hash_inv_groups_of [of compute_hash t paths] assms(2) show ?thesis
    unfolding hash_inv_def by fastforce
qed

lemma target_key_zero: "target_key 0 ks h = h"
  by (auto simp: target_key_def hamming_distance_le_0_iff dest: first_match_Some split: option.splits)

text \<open>
  C6. With threshold 0 every returned group holds only images whose computed fingerprints are
  all equal: two members of one group always have the same fingerprint, so images with
  unequal fingerprints are never grouped together.
\<close>

theorem threshold_zero_groups_are_bit_identical:
  assumes "grp \<in> set (find_duplicate_groups compute_hash 0 image_paths)"
    and "p \<in> set grp" and "q \<in> set grp"
  shows "\<exists>h. compute_hash p = Some h \<and> compute_hash q = Some h"
  using group_member_seed [OF assms(1,2)] group_member_seed [OF assms(1,3)]
  by (auto simp: target_key_zero)

theorem threshold_zero_groups_are_bit_identical_witness:
  "[''a.png'', ''b.png''] \<in> set (find_duplicate_groups example_hash 0 [''a.png'', ''b.png'', ''c.png''])
   \<and> ''a.png'' \<in> set [''a.png'', ''b.png''] \<and> ''b.png'' \<in> set [''a.png'', ''b.png'']
   \<and> (\<exists>h. example_hash ''a.png'' = Some h \<and> example_hash ''b.png'' = Some h)
   \<and> find_duplicate_groups example_hash 0 [''a.png'', ''c.png''] = []"
proof -
  have g: "[''a.png'', ''b.png''] \<in> set (find_duplicate_groups example_hash 0 [''a.png'', ''b.png'', ''c.png''])"
    by code_simp
  have m: "''a.png'' \<in> set [''a.png'', ''b.png'']" "''b.png'' \<in> set [''a.png'', ''b.png'']" by simp_all
  have e: "find_duplicate_groups example_hash 0 [''a.png'', ''c.png''] = []" by code_simp
  from threshold_zero_groups_are_bit_identical [OF g m] g m e show ?thesis by blast
qed

text \<open>
  C10. Membership is tested against the representative only. For every input and every
  threshold \<open>t \<ge> 0\<close>, each member of a returned group is within distance \<open>t\<close> of the
  fingerprint of the group's first member (the seed), hence two members are within \<open>2 * t\<close> of
  each other; and for some input with \<open>t \<ge> 1\<close> two non-seed members of one returned group
  are further than \<open>t\<close> apart.
\<close>

theorem members_close_to_seed_only:
  "(\<forall>compute_hash t image_paths grp p q.
      0 \<le> t \<and> grp \<in> set (find_duplicate_groups compute_hash t image_paths) \<and> p \<in> set grp \<and> q \<in> set grp \<longrightarrow>
      (\<exists>h hq seed. compute_hash p = Some h \<and> compute_hash q = Some hq \<and> compute_hash (hd grp) = Some seed \<and>
         hamming_distance h seed \<le> t \<and> hamming_distance h hq \<le> 2 * t))
   \<and> (\<exists>compute_hash t image_paths grp p q hp hq.
      1 \<le> t \<and> grp \<in> set (find_duplicate_groups compute_hash t image_paths) \<and>
      p \<in> set (tl grp) \<and> q \<in> set (tl grp) \<and>
      compute_hash p = Some hp \<and> compute_hash q = Some hq \<and> t < hamming_distance hp hq)"
proof (intro conjI allI impI)
  fix compute_hash t image_paths grp p q
  assume a: "0 \<le> t \<and> grp \<in> set (find_duplicate_groups compute_hash t image_paths) \<and> p \<in> set grp \<and> q \<in> set grp"
  let ?ks = "map fst (hash_groups_of compute_hash t image_paths)"
  from a group_member_seed [of grp compute_hash t image_paths p] obtain k h where
    p: "compute_hash (hd grp) = Some k" "compute_hash p = Some h" "target_key t ?ks h = k" by blast
  from a group_member_seed [of grp compute_hash t image_paths q] p(1) obtain hq where
    q: "compute_hash q = Some hq" "target_key t ?ks hq = k" by auto
  have d: "hamming_distance h k \<le> t" "hamming_distance hq k \<le> t"
    using a p(3) q(2) target_key_close [of t h ?ks] target_key_close [of t hq ?ks] by auto
  have "hamming_distance h hq \<le> 2 * t"
    using d hamming_triangle [of h hq k] hamming_distance_commute [of k hq] by linarith
  with p q d show "\<exists>h hq seed. compute_hash p = Some h \<and> compute_hash q = Some hq \<and> compute_hash (hd grp) = Some seed \<and>
         hamming_distance h seed \<le> t \<and> hamming_distance h hq \<le> 2 * t" by blast
next
  have g: "[''s.png'', ''m1.png'', ''m2.png''] \<in> set (find_duplicate_groups seed_only_hash 1 [''s.png'', ''m1.png'', ''m2.png''])"
    by code_simp
  have d: "1 < hamming_distance 1 2" by code_simp
  have h: "seed_only_hash ''m1.png'' = Some 1" "seed_only_hash ''m2.png'' = Some 2" by code_simp+
  show "\<exists>compute_hash t image_paths grp p q hp hq.
      1 \<le> t \<and> grp \<in> set (find_duplicate_groups compute_hash t image_paths) \<and>
      p \<in> set (tl grp) \<and> q \<in> set (tl grp) \<and>
      compute_hash p = Some hp \<and> compute_hash q = Some hq \<and> t < hamming_distance hp hq"
    apply (rule exI [of _ seed_only_hash], rule exI [of _ 1], rule exI [of _ "[''s.png'', ''m1.png'', ''m2.png'']"],
           rule exI [of _ "[''s.png'', ''m1.png'', ''m2.png'']"], rule exI [of _ "''m1.png''"], rule exI [of _ "''m2.png''"],
           rule exI [of _ 1], rule exI [of _ 2])
    using g d h by simp
qed

theorem members_close_to_seed_only_witness:
  "(0::int) \<le> 1
   \<and> [''s.png'', ''m1.png'', ''m2.png''] \<in> set (find_duplicate_groups seed_only_hash 1 [''s.png'', ''m1.png'', ''m2.png''])
   \<and> ''m1.png'' \<in> set [''s.png'', ''m1.png'', ''m2.png''] \<and> ''m2.png'' \<in> set [''s.png'', ''m1.png'', ''m2.png'']
   \<and> (\<exists>h hq seed. seed_only_hash ''m1.png'' = Some h \<and> seed_only_hash ''m2.png'' = Some hq \<and>
         seed_only_hash (hd [''s.png'', ''m1.png'', ''m2.png'']) = Some seed \<and>
         hamming_distance h seed \<le> 1 \<and> hamming_distance h hq \<le> 2 * 1)"
proof -
  have z: "(0::int) \<le> 1" by simp
  have g: "[''s.png'', ''m1.png'', ''m2.png''] \<in> set (find_duplicate_groups seed_only_hash 1 [''s.png'', ''m1.png'', ''m2.png''])"
    by code_simp
  have m: "''m1.png'' \<in> set [''s.png'', ''m1.png'', ''m2.png'']" "''m2.png'' \<in> set [''s.png'', ''m1.png'', ''m2.png'']"
    by simp_all
  have "\<exists>h hq seed. seed_only_hash ''m1.png'' = Some h \<and> seed_only_hash ''m2.png'' = Some hq \<and>
         seed_only_hash (hd [''s.png'', ''m1.png'', ''m2.png'']) = Some seed \<and>
         hamming_distance h seed \<le> 1 \<and> hamming_distance h hq \<le> 2 * 1"
    using conjunct1 [OF members_close_to_seed_only] z g m by blast
  with z g m show ?thesis by blast
qed

subsection \<open>C1: which representative receives an image\<close>

text \<open>
  C1, as stated, fails: with threshold 2 and representatives \<open>0000\<close> and \<open>0111\<close>, the image
  with fingerprint \<open>0011\<close> is at distance 2 from the first and 1 from the second. The code
  appends it to the group of the first, the minimum-distance rule of the claim to the second.
\<close>

theorem min_distance_counterexample:
  "hash_groups_of nearer_hash 2 [''a.png'', ''b.png''] = [(0, [''a.png'']), (7, [''b.png''])]
   \<and> hamming_distance 3 0 = 2 \<and> hamming_distance 3 7 = 1
   \<and> hash_groups_of nearer_hash 2 [''a.png'', ''b.png'', ''c.png''] = [(0, [''a.png'', ''c.png'']), (7, [''b.png''])]
   \<and> spec_min_distance_step nearer_hash 2 [(0, [''a.png'']), (7, [''b.png''])] ''c.png''
       = [(0, [''a.png'']), (7, [''b.png'', ''c.png''])]
   \<and> find_duplicate_groups nearer_hash 2 [''a.png'', ''b.png'', ''c.png''] = [[''a.png'', ''c.png'']]"
  by code_simp

lemma distinct_first_index:
  "distinct (map fst gs) \<Longrightarrow> i < length gs \<Longrightarrow> j < i \<Longrightarrow> fst (gs ! j) \<noteq> fst (gs ! i)"
  using nth_eq_iff_index_eq [of "map fst gs" j i] by auto

text \<open>
  C1, amended. Images are processed in input order: the dictionary after \<open>image_paths @ [path]\<close>
  is the dictionary after \<open>image_paths\<close> with one more step. An image whose fingerprint cannot
  be computed leaves it unchanged. Otherwise the image is appended to the group of the first
  representative, in order of creation, whose Hamming distance is within the threshold; when
  there is none it starts a new group as its own representative, except that under a negative
  threshold it joins the group whose key is its own fingerprint when that group exists.
\<close>

theorem hash_clustering_first_match:
  assumes groups_def: "groups = hash_groups_of compute_hash t image_paths"
  shows "hash_groups_of compute_hash t (image_paths @ [path]) =
    (case compute_hash path of
       None \<Rightarrow> groups
     | Some h \<Rightarrow>
         if \<exists>i < length groups. hamming_distance h (fst (groups ! i)) \<le> t
         then (let i = (LEAST i. i < length groups \<and> hamming_distance h (fst (groups ! i)) \<le> t)
               in groups[i := (fst (groups ! i), snd (groups ! i) @ [path])])
         else if 0 \<le> t \<or> h \<notin> fst ` set groups then groups @ [(h, [path])]
         else (let i = (LEAST i. i < length groups \<and> fst (groups ! i) = h)
               in groups[i := (h, snd (groups ! i) @ [path])]))"
proof -
  have step: "hash_groups_of compute_hash t (image_paths @ [path]) = hash_step compute_hash t groups path"
    by (simp add: hash_groups_of_def hash_loop_append groups_def)
  have inv: "hash_inv compute_hash t groups" unfolding groups_def by (rule hash_inv_groups_of)
  then have dist: "distinct (map fst groups)" by (simp add: hash_inv_def)
  show ?thesis
  proof (cases "compute_hash path")
    case None
    then show ?thesis by (simp add: step hash_step_def)
  next
    case (Some h)
    show ?thesis
    proof (cases "first_match t h (map fst groups)")
      case fm: (Some k)
      from first_match_least [OF fm] obtain i where i: "i < length groups" "fst (groups ! i) = k"
        "hamming_distance h k \<le> t" "\<forall>j < i. \<not> hamming_distance h (fst (groups ! j)) \<le> t"
        by auto
      have least: "(LEAST i. i < length groups \<and> hamming_distance h (fst (groups ! i)) \<le> t) = i"
        by (rule Least_equality) (use i in \<open>auto simp: not_less [symmetric]\<close>)
      have ex: "\<exists>i < length groups. hamming_distance h (fst (groups ! i)) \<le> t" using i by auto
      have "\<forall>j < i. fst (groups ! j) \<noteq> k" using distinct_first_index [OF dist i(1)] i(2) by auto
      then have "dict_append k path groups = groups[i := (k, snd (groups ! i) @ [path])]"
        using i by (intro dict_append_nth) auto
      then have lhs: "hash_groups_of compute_hash t (image_paths @ [path]) =
          groups[i := (fst (groups ! i), snd (groups ! i) @ [path])]"
        using Some fm i(2) by (simp add: step hash_step_def)
      show ?thesis unfolding lhs
        by (simp only: Some option.case if_P [OF ex] Let_def least)
    next
      case fm: None
      then have nex: "\<not> (\<exists>i < length groups. hamming_distance h (fst (groups ! i)) \<le> t)"
        by (auto simp: first_match_None_iff)
      have st: "hash_step compute_hash t groups path = dict_append h path groups"
        using Some fm by (simp add: hash_step_def)
      show ?thesis
      proof (cases "h \<in> fst ` set groups")
        case False
        then have lhs: "hash_groups_of compute_hash t (image_paths @ [path]) = groups @ [(h, [path])]"
          using st step by (simp add: dict_append_new)
        have c2: "0 \<le> t \<or> h \<notin> fst ` set groups" using False by simp
        show ?thesis unfolding lhs
          by (simp only: Some option.case if_not_P [OF nex] if_P [OF c2])
      next
        case True
        then have "\<not> hamming_distance h h \<le> t" using fm by (auto simp: first_match_None_iff)
        then have neg: "\<not> 0 \<le> t" by (simp add: hamming_distance_self)
        from True obtain x where "x \<in> set groups" "fst x = h" by auto
        then obtain i0 where "i0 < length groups" "fst (groups ! i0) = h"
          by (auto simp: in_set_conv_nth)
        then have P: "\<exists>i. i < length groups \<and> fst (groups ! i) = h" by auto
        define i where "i = (LEAST i. i < length groups \<and> fst (groups ! i) = h)"
        have i: "i < length groups" "fst (groups ! i) = h"
          using LeastI_ex [OF P] by (auto simp: i_def)
        have "\<forall>j < i. fst (groups ! j) \<noteq> h" using distinct_first_index [OF dist i(1)] i(2) by auto
        then have "dict_append h path groups = groups[i := (h, snd (groups ! i) @ [path])]"
          using i by (intro dict_append_nth) auto
        then have lhs: "hash_groups_of compute_hash t (image_paths @ [path]) =
            groups[i := (h, snd (groups ! i) @ [path])]"
          using st step by simp
        have c2: "\<not> (0 \<le> t \<or> h \<notin> fst ` set groups)" using True neg by simp
        show ?thesis unfolding lhs
          by (simp only: Some option.case if_not_P [OF nex] if_not_P [OF c2] Let_def i_def [symmetric])
      qed
    qed
  qed
qed

theorem hash_clustering_first_match_witness:
  "hash_groups_of nearer_hash 2 ([''a.png'', ''b.png''] @ [''c.png'']) =
     (hash_groups_of nearer_hash 2 [''a.png'', ''b.png''])
       [0 := (fst (hash_groups_of nearer_hash 2 [''a.png'', ''b.png''] ! 0),
              snd (hash_groups_of nearer_hash 2 [''a.png'', ''b.png''] ! 0) @ [''c.png''])]"
proof -
  let ?G = "hash_groups_of nearer_hash 2 [''a.png'', ''b.png'']"
  have g: "?G = [(0, [''a.png'']), (7, [''b.png''])]"
    by code_simp
  have h: "nearer_hash ''c.png'' = Some 3" by code_simp
  have d: "hamming_distance 3 0 \<le> 2" by code_simp
  have ex: "\<exists>i < length ?G. hamming_distance 3 (fst (?G ! i)) \<le> 2"
    unfolding g using d by (intro exI [of _ 0]) simp
  have l: "(LEAST i. i < length ?G \<and> hamming_distance 3 (fst (?G ! i)) \<le> 2) = 0"
    unfolding g using d by (intro Least_equality) simp_all
  show ?thesis
    using hash_clustering_first_match [OF refl, of nearer_hash 2 "[''a.png'', ''b.png'']" "''c.png''"]
    by (simp only: h option.case ex if_True l Let_def)
qed

section \<open>Properties of the deletion workflow\<close>

lemma outcomes_append: "outcomes (xs @ ys) = outcomes xs @ outcomes ys"
  by (simp add: outcomes_def map_filter_def)

lemma remove_calls_append: "remove_calls (xs @ ys) = remove_calls xs @ remove_calls ys"
  by (simp add: remove_calls_def map_filter_def)

lemma delete_one_events:
  "\<exists>out. events (delete_one path_exists os_remove st p) =
     events st @ (if out = NotFound then [] else [RemoveCalled p]) @ [Logged p out] \<and>
     deleted_count (delete_one path_exists os_remove st p) = deleted_count st + (if out = Deleted then 1 else 0) \<and>
     error_count (delete_one path_exists os_remove st p) = error_count st + (if is_failure out then 1 else 0)"
proof (cases "path_exists (files st) p")
  case False
  then show ?thesis
    by (intro exI [of _ NotFound]) (simp add: delete_one_def is_failure_def)
next
  case True
  obtain raised fs' where r: "os_remove (files st) p = (raised, fs')" by (cases "os_remove (files st) p")
  show ?thesis
  proof (cases raised)
    case True
    with \<open>path_exists (files st) p\<close> r show ?thesis
      by (intro exI [of _ DeleteError]) (simp add: delete_one_def is_failure_def)
  next
    case False
    show ?thesis
    proof (cases "path_exists fs' p")
      case True
      with False \<open>path_exists (files st) p\<close> r show ?thesis
        by (intro exI [of _ DeleteFailed]) (simp add: delete_one_def is_failure_def)
    next
      case nx: False
      with False \<open>path_exists (files st) p\<close> r show ?thesis
        by (intro exI [of _ Deleted]) (simp add: delete_one_def is_failure_def)
    qed
  qed
qed

lemma outcomes_step:
  "outcomes ((if out = NotFound then [] else [RemoveCalled p]) @ [Logged p out]) = [(p, out)]"
  by (simp add: outcomes_def map_filter_def)

lemma remove_calls_step:
  "remove_calls ((if out = NotFound then [] else [RemoveCalled p]) @ [Logged p out]) =
     (if out = NotFound then [] else [p])"
  by (simp add: remove_calls_def map_filter_def)

lemma delete_loop_report:
  "\<exists>new. events (delete_loop path_exists os_remove ps st) = events st @ new \<and>
     map fst (outcomes new) = ps \<and>
     deleted_count (delete_loop path_exists os_remove ps st) =
       deleted_count st + length (filter (\<lambda>r. snd r = Deleted) (outcomes new)) \<and>
     error_count (delete_loop path_exists os_remove ps st) =
       error_count st + length (filter (\<lambda>r. is_failure (snd r)) (outcomes new)) \<and>
     remove_calls new = map fst (filter (\<lambda>r. snd r \<noteq> NotFound) (outcomes new))"
proof (induction ps arbitrary: st)
  case Nil
  show ?case by (intro exI [of _ "[]"]) (simp add: outcomes_def remove_calls_def map_filter_def)
next
  case (Cons p ps)
  let ?st1 = "delete_one path_exists os_remove st p"
  from delete_one_events [of path_exists os_remove st p] obtain out where
    one: "events ?st1 = events st @ (if out = NotFound then [] else [RemoveCalled p]) @ [Logged p out]"
      "deleted_count ?st1 = deleted_count st + (if out = Deleted then 1 else 0)"
      "error_count ?st1 = error_count st + (if is_failure out then 1 else 0)" by blast
  from Cons.IH [of ?st1] obtain new where
    rest: "events (delete_loop path_exists os_remove ps ?st1) = events ?st1 @ new"
      "map fst (outcomes new) = ps"
      "deleted_count (delete_loop path_exists os_remove ps ?st1) =
         deleted_count ?st1 + length (filter (\<lambda>r. snd r = Deleted) (outcomes new))"
      "error_count (delete_loop path_exists os_remove ps ?st1) =
         error_count ?st1 + length (filter (\<lambda>r. is_failure (snd r)) (outcomes new))"
      "remove_calls new = map fst (filter (\<lambda>r. snd r \<noteq> NotFound) (outcomes new))" by blast
  define first where "first = (if out = NotFound then [] else [RemoveCalled p]) @ [Logged p out]"
  have o1: "outcomes first = [(p, out)]" unfolding first_def by (rule outcomes_step)
  have r1: "remove_calls first = (if out = NotFound then [] else [p])"
    unfolding first_def by (rule remove_calls_step)
  have e1: "events ?st1 = events st @ first" using one(1) by (simp add: first_def)
  show ?case
  proof (intro exI [of _ "first @ new"] conjI)
    show "events (delete_loop path_exists os_remove (p # ps) st) = events st @ first @ new"
      using e1 rest(1) by simp
    show "map fst (outcomes (first @ new)) = p # ps"
      using rest(2) by (simp add: outcomes_append o1)
    show "deleted_count (delete_loop path_exists os_remove (p # ps) st) =
        deleted_count st + length (filter (\<lambda>r. snd r = Deleted) (outcomes (first @ new)))"
      using one(2) rest(3) by (simp add: outcomes_append o1)
    show "error_count (delete_loop path_exists os_remove (p # ps) st) =
        error_count st + length (filter (\<lambda>r. is_failure (snd r)) (outcomes (first @ new)))"
      using one(3) rest(4) by (simp add: outcomes_append o1)
    show "remove_calls (first @ new) = map fst (filter (\<lambda>r. snd r \<noteq> NotFound) (outcomes (first @ new)))"
      using rest(5) by (simp add: outcomes_append o1 remove_calls_append r1)
  qed
qed

lemma export_results_confirmed:
  assumes "duplicate_groups \<noteq> []" "directory \<noteq> []"
    and "get_selected_files_to_delete duplicate_tree \<noteq> []" "write_ok" "reply_yes"
  shows "\<exists>new.
     events (export_results path_exists os_remove duplicate_groups duplicate_tree directory write_ok reply_yes fs) =
       [AuditWritten (audit_lines duplicate_groups (get_selected_files_to_delete duplicate_tree)), Confirmed True]
       @ new
       @ [Summary (length (filter (\<lambda>r. snd r = Deleted) (outcomes new)))
                  (length (filter (\<lambda>r. is_failure (snd r)) (outcomes new)))] \<and>
     map fst (outcomes new) = get_selected_files_to_delete duplicate_tree \<and>
     remove_calls new = map fst (filter (\<lambda>r. snd r \<noteq> NotFound) (outcomes new))"
proof -
  let ?fs = "get_selected_files_to_delete duplicate_tree"
  let ?written = "\<lparr>files = fs, deleted_count = 0, error_count = 0,
     events = [AuditWritten (audit_lines duplicate_groups ?fs), Confirmed True]\<rparr>"
  let ?st = "delete_loop path_exists os_remove ?fs ?written"
  from delete_loop_report [of path_exists os_remove ?fs ?written]
  obtain new where new: "events ?st = events ?written @ new"
      "map fst (outcomes new) = ?fs"
      "deleted_count ?st = deleted_count ?written + length (filter (\<lambda>r. snd r = Deleted) (outcomes new))"
      "error_count ?st = error_count ?written + length (filter (\<lambda>r. is_failure (snd r)) (outcomes new))"
      "remove_calls new = map fst (filter (\<lambda>r. snd r \<noteq> NotFound) (outcomes new))" by blast
  have "events (export_results path_exists os_remove duplicate_groups duplicate_tree directory write_ok reply_yes fs) =
      events ?st @ [Summary (deleted_count ?st) (error_count ?st)]"
    using assms by (simp add: export_results_def Let_def)
  with new show ?thesis by (intro exI [of _ new]) simp
qed

lemma outcomes_frame:
  "outcomes ([AuditWritten a, Confirmed b] @ new @ [Summary d e]) = outcomes new"
  by (simp add: outcomes_def map_filter_def)

lemma remove_calls_frame:
  "remove_calls ([AuditWritten a, Confirmed b] @ new @ [Summary d e]) = remove_calls new"
  by (simp add: remove_calls_def map_filter_def)

lemma delete_one_spec:
  "\<exists>first. events (delete_one path_exists os_remove st p) = events st @ first \<and>
     outcomes first = [(p, attempt_outcome path_exists os_remove (files st) p)] \<and>
     remove_calls first = (if path_exists (files st) p then [p] else []) \<and>
     files (delete_one path_exists os_remove st p) = files_after_attempt path_exists os_remove (files st) p \<and>
     deleted_count (delete_one path_exists os_remove st p) =
       deleted_count st + (if attempt_outcome path_exists os_remove (files st) p = Deleted then 1 else 0) \<and>
     error_count (delete_one path_exists os_remove st p) =
       error_count st + (if is_failure (attempt_outcome path_exists os_remove (files st) p) then 1 else 0)"
proof (cases "path_exists (files st) p")
  case False
  then show ?thesis
    by (intro exI [of _ "[Logged p NotFound]"])
      (simp add: delete_one_def attempt_outcome_def files_after_attempt_def is_failure_def
         outcomes_def remove_calls_def map_filter_def)
next
  case True
  obtain raised fs' where r: "os_remove (files st) p = (raised, fs')" by (cases "os_remove (files st) p")
  define out where "out = attempt_outcome path_exists os_remove (files st) p"
  have out: "out = (if raised then DeleteError else if path_exists fs' p then DeleteFailed else Deleted)"
    using True r by (simp add: out_def attempt_outcome_def)
  have ev: "events (delete_one path_exists os_remove st p) = events st @ [RemoveCalled p, Logged p out]"
    using True r out by (cases raised) (simp_all add: delete_one_def)
  have fs: "files (delete_one path_exists os_remove st p) = fs'"
    using True r by (cases raised) (simp_all add: delete_one_def)
  have dc: "deleted_count (delete_one path_exists os_remove st p) =
      deleted_count st + (if out = Deleted then 1 else 0)"
    using True r out by (cases raised) (simp_all add: delete_one_def)
  have ec: "error_count (delete_one path_exists os_remove st p) =
      error_count st + (if is_failure out then 1 else 0)"
    using True r out by (cases raised) (simp_all add: delete_one_def is_failure_def)
  show ?thesis
  proof (intro exI [of _ "[RemoveCalled p, Logged p out]"] conjI)
    show "events (delete_one path_exists os_remove st p) = events st @ [RemoveCalled p, Logged p out]"
      by (rule ev)
    show "outcomes [RemoveCalled p, Logged p out] = [(p, attempt_outcome path_exists os_remove (files st) p)]"
      by (simp add: outcomes_def map_filter_def out_def)
    show "remove_calls [RemoveCalled p, Logged p out] = (if path_exists (files st) p then [p] else [])"
      using True by (simp add: remove_calls_def map_filter_def)
    show "files (delete_one path_exists os_remove st p) = files_after_attempt path_exists os_remove (files st) p"
      using fs True r by (simp add: files_after_attempt_def)
    show "deleted_count (delete_one path_exists os_remove st p) =
       deleted_count st + (if attempt_outcome path_exists os_remove (files st) p = Deleted then 1 else 0)"
      using dc by (simp add: out_def)
    show "error_count (delete_one path_exists os_remove st p) =
       error_count st + (if is_failure (attempt_outcome path_exists os_remove (files st) p) then 1 else 0)"
      using ec by (simp add: out_def)
  qed
qed

lemma attempt_outcome_NotFound:
  "attempt_outcome path_exists os_remove fs p = NotFound \<longleftrightarrow> \<not> path_exists fs p"
  by (simp add: attempt_outcome_def)

lemma delete_loop_spec:
  "\<exists>new. events (delete_loop path_exists os_remove ps st) = events st @ new \<and>
     outcomes new = expected_report path_exists os_remove (files st) ps \<and>
     remove_calls new =
       map fst (filter (\<lambda>r. snd r \<noteq> NotFound) (expected_report path_exists os_remove (files st) ps)) \<and>
     files (delete_loop path_exists os_remove ps st) = files_after path_exists os_remove (files st) ps \<and>
     deleted_count (delete_loop path_exists os_remove ps st) =
       deleted_count st +
       length (filter (\<lambda>r. snd r = Deleted) (expected_report path_exists os_remove (files st) ps)) \<and>
     error_count (delete_loop path_exists os_remove ps st) =
       error_count st +
       length (filter (\<lambda>r. is_failure (snd r)) (expected_report path_exists os_remove (files st) ps))"
proof (induction ps arbitrary: st)
  case Nil
  show ?case by (intro exI [of _ "[]"]) (simp add: outcomes_def remove_calls_def map_filter_def)
next
  case (Cons p ps)
  let ?st1 = "delete_one path_exists os_remove st p"
  let ?out = "attempt_outcome path_exists os_remove (files st) p"
  let ?fs1 = "files_after_attempt path_exists os_remove (files st) p"
  from delete_one_spec [of path_exists os_remove st p] obtain first where
    one: "events ?st1 = events st @ first" "outcomes first = [(p, ?out)]"
      "remove_calls first = (if path_exists (files st) p then [p] else [])"
      "files ?st1 = ?fs1"
      "deleted_count ?st1 = deleted_count st + (if ?out = Deleted then 1 else 0)"
      "error_count ?st1 = error_count st + (if is_failure ?out then 1 else 0)" by blast
  from Cons.IH [of ?st1] obtain new where
    rest: "events (delete_loop path_exists os_remove ps ?st1) = events ?st1 @ new"
      "outcomes new = expected_report path_exists os_remove (files ?st1) ps"
      "remove_calls new =
         map fst (filter (\<lambda>r. snd r \<noteq> NotFound) (expected_report path_exists os_remove (files ?st1) ps))"
      "files (delete_loop path_exists os_remove ps ?st1) = files_after path_exists os_remove (files ?st1) ps"
      "deleted_count (delete_loop path_exists os_remove ps ?st1) =
         deleted_count ?st1 +
         length (filter (\<lambda>r. snd r = Deleted) (expected_report path_exists os_remove (files ?st1) ps))"
      "error_count (delete_loop path_exists os_remove ps ?st1) =
         error_count ?st1 +
         length (filter (\<lambda>r. is_failure (snd r)) (expected_report path_exists os_remove (files ?st1) ps))"
    by blast
  show ?case
  proof (intro exI [of _ "first @ new"] conjI)
    show "events (delete_loop path_exists os_remove (p # ps) st) = events st @ first @ new"
      using one(1) rest(1) by simp
    show "outcomes (first @ new) = expected_report path_exists os_remove (files st) (p # ps)"
      using one(2,4) rest(2) by (simp add: outcomes_append)
    show "remove_calls (first @ new) =
       map fst (filter (\<lambda>r. snd r \<noteq> NotFound) (expected_report path_exists os_remove (files st) (p # ps)))"
      using one(3,4) rest(3) by (simp add: remove_calls_append attempt_outcome_NotFound)
    show "files (delete_loop path_exists os_remove (p # ps) st) =
        files_after path_exists os_remove (files st) (p # ps)"
      using one(4) rest(4) by simp
    show "deleted_count (delete_loop path_exists os_remove (p # ps) st) =
       deleted_count st +
       length (filter (\<lambda>r. snd r = Deleted) (expected_report path_exists os_remove (files st) (p # ps)))"
      using one(4,5) rest(5) by simp
    show "error_count (delete_loop path_exists os_remove (p # ps) st) =
       error_count st +
       length (filter (\<lambda>r. is_failure (snd r)) (expected_report path_exists os_remove (files st) (p # ps)))"
      using one(4,6) rest(6) by simp
  qed
qed

lemma map_fst_expected_report: "map fst (expected_report path_exists os_remove fs ps) = ps"
  by (induction ps arbitrary: fs) auto

text \<open>
  C8. When the deletion is confirmed, the loop of \<^verbatim>\<open>export_results\<close> does what the specification
  describes, whatever the file system and the deletion service do: the logged outcomes are
  those of attempting every entry of the plan in order, each against the file system the
  earlier attempts left behind, so a failure does not stop the loop. Exactly the entries that
  exist at their turn are handed to \<^verbatim>\<open>os.remove\<close>; the file system at the end is the one these
  attempts produce; the two counts shown at the end are the numbers of deleted and of failed
  entries. With three entries of which the second fails, the report is deleted, failed, deleted
  with counts 2 and 1, and the third entry is still attempted; with a service that always
  raises, all three entries are still attempted.
\<close>

theorem deletion_continues_past_failures:
  assumes "duplicate_groups \<noteq> []" and "directory \<noteq> []"
    and "files_to_delete = get_selected_files_to_delete duplicate_tree" and "files_to_delete \<noteq> []"
    and "write_ok" and "reply_yes"
    and "st = export_results path_exists os_remove duplicate_groups duplicate_tree
                directory write_ok reply_yes fs"
    and "report = expected_report path_exists os_remove fs files_to_delete"
  shows "outcomes (events st) = report \<and>
         map fst (outcomes (events st)) = files_to_delete \<and>
         remove_calls (events st) = map fst (filter (\<lambda>r. snd r \<noteq> NotFound) report) \<and>
         files st = files_after path_exists os_remove fs files_to_delete \<and>
         deleted_count st = length (filter (\<lambda>r. snd r = Deleted) report) \<and>
         error_count st = length (filter (\<lambda>r. is_failure (snd r)) report) \<and>
         last (events st) = Summary (deleted_count st) (error_count st)"
proof -
  let ?written = "\<lparr>files = fs, deleted_count = 0, error_count = 0,
     events = [AuditWritten (audit_lines duplicate_groups files_to_delete), Confirmed True]\<rparr>"
  let ?lp = "delete_loop path_exists os_remove files_to_delete ?written"
  from delete_loop_spec [of path_exists os_remove files_to_delete ?written]
  obtain new where new: "events ?lp = events ?written @ new"
      "outcomes new = report"
      "remove_calls new = map fst (filter (\<lambda>r. snd r \<noteq> NotFound) report)"
      "files ?lp = files_after path_exists os_remove fs files_to_delete"
      "deleted_count ?lp = length (filter (\<lambda>r. snd r = Deleted) report)"
      "error_count ?lp = length (filter (\<lambda>r. is_failure (snd r)) report)"
    unfolding assms(8) by auto
  have st: "st = ?lp\<lparr>events := events ?lp @ [Summary (deleted_count ?lp) (error_count ?lp)]\<rparr>"
    unfolding assms(7) using assms(1,2,4,5,6) assms(3) [symmetric]
    by (simp add: export_results_def Let_def)
  have ev: "events st = [AuditWritten (audit_lines duplicate_groups files_to_delete), Confirmed True]
      @ new @ [Summary (deleted_count ?lp) (error_count ?lp)]"
    by (subst st) (simp add: new(1))
  have o: "outcomes (events st) = outcomes new" unfolding ev by (rule outcomes_frame)
  have r: "remove_calls (events st) = remove_calls new" unfolding ev by (rule remove_calls_frame)
  have f: "files st = files ?lp" "deleted_count st = deleted_count ?lp" "error_count st = error_count ?lp"
    by (subst st, simp)+
  have l: "last (events st) = Summary (deleted_count ?lp) (error_count ?lp)" unfolding ev by simp
  have m: "map fst report = files_to_delete" unfolding assms(8) by (rule map_fst_expected_report)
  show ?thesis unfolding o r f l new(2-6) using m by simp
qed

theorem deletion_continues_past_failures_witness:
  "example_groups \<noteq> [] \<and> ''out'' \<noteq> [] \<and>
   [''a.png'', ''b.png'', ''c.png''] = get_selected_files_to_delete example_tree \<and>
   [''a.png'', ''b.png'', ''c.png''] \<noteq> [] \<and>
   expected_report fake_exists fake_remove example_files [''a.png'', ''b.png'', ''c.png'']
     = [(''a.png'', Deleted), (''b.png'', DeleteError), (''c.png'', Deleted)] \<and>
   outcomes (events (export_results fake_exists fake_remove example_groups example_tree ''out'' True True example_files))
     = [(''a.png'', Deleted), (''b.png'', DeleteError), (''c.png'', Deleted)] \<and>
   remove_calls (events (export_results fake_exists fake_remove example_groups example_tree ''out'' True True example_files))
     = [''a.png'', ''b.png'', ''c.png''] \<and>
   files (export_results fake_exists fake_remove example_groups example_tree ''out'' True True example_files)
     = [''k.png'', ''b.png''] \<and>
   last (events (export_results fake_exists fake_remove example_groups example_tree ''out'' True True example_files))
     = Summary 2 1 \<and>
   remove_calls (events (export_results fake_exists raising_remove example_groups example_tree ''out'' True True example_files))
     = [''a.png'', ''b.png'', ''c.png'']"
proof -
  let ?st = "export_results fake_exists fake_remove example_groups example_tree ''out'' True True example_files"
  have a: "example_groups \<noteq> []" "''out'' \<noteq> []"
    "[''a.png'', ''b.png'', ''c.png''] = get_selected_files_to_delete example_tree"
    "[''a.png'', ''b.png'', ''c.png''] \<noteq> []" by code_simp+
  have e: "expected_report fake_exists fake_remove example_files [''a.png'', ''b.png'', ''c.png'']
     = [(''a.png'', Deleted), (''b.png'', DeleteError), (''c.png'', Deleted)]" by code_simp
  have fa: "files_after fake_exists fake_remove example_files [''a.png'', ''b.png'', ''c.png'']
     = [''k.png'', ''b.png'']" by code_simp
  have rr: "remove_calls (events (export_results fake_exists raising_remove example_groups example_tree
       ''out'' True True example_files)) = [''a.png'', ''b.png'', ''c.png'']" by code_simp
  from deletion_continues_past_failures [OF a(1) a(2) a(3) a(4) TrueI TrueI refl refl,
      of fake_exists fake_remove example_files]
  have t: "outcomes (events ?st) = expected_report fake_exists fake_remove example_files [''a.png'', ''b.png'', ''c.png'']"
    "remove_calls (events ?st) = map fst (filter (\<lambda>r. snd r \<noteq> NotFound)
        (expected_report fake_exists fake_remove example_files [''a.png'', ''b.png'', ''c.png'']))"
    "files ?st = files_after fake_exists fake_remove example_files [''a.png'', ''b.png'', ''c.png'']"
    "deleted_count ?st = length (filter (\<lambda>r. snd r = Deleted)
        (expected_report fake_exists fake_remove example_files [''a.png'', ''b.png'', ''c.png'']))"
    "error_count ?st = length (filter (\<lambda>r. is_failure (snd r))
        (expected_report fake_exists fake_remove example_files [''a.png'', ''b.png'', ''c.png'']))"
    "last (events ?st) = Summary (deleted_count ?st) (error_count ?st)"
    by blast+
  have o: "outcomes (events ?st) = [(''a.png'', Deleted), (''b.png'', DeleteError), (''c.png'', Deleted)]"
    using t(1) e by simp
  have r: "remove_calls (events ?st) = [''a.png'', ''b.png'', ''c.png'']" using t(2) unfolding e by simp
  have f: "files ?st = [''k.png'', ''b.png'']" using t(3) fa by simp
  have c: "deleted_count ?st = 2" "error_count ?st = 1" using t(4,5) unfolding e by (simp_all add: is_failure_def)
  have l: "last (events ?st) = Summary 2 1" using t(6) c by simp
  from a e o r f l rr show ?thesis by blast
qed

lemma delete_loop_events_extend:
  "\<exists>new. events (delete_loop path_exists os_remove ps st) = events st @ new"
  using delete_loop_report [of path_exists os_remove ps st] by blast

text \<open>
  C9. In every run of \<^verbatim>\<open>export_results\<close>, a call of \<^verbatim>\<open>os.remove\<close> is never the first effect: the
  first effect is then the completed writing of the audit text, which lists every member of
  every duplicate group and ends with the list of the files selected for deletion.
\<close>

theorem audit_written_before_any_deletion:
  assumes "evs = events (export_results path_exists os_remove duplicate_groups duplicate_tree
                           directory write_ok reply_yes fs)"
    and "i < length evs" and "evs ! i = RemoveCalled file_path"
  shows "0 < i \<and>
         evs ! 0 = AuditWritten (audit_lines duplicate_groups (get_selected_files_to_delete duplicate_tree)) \<and>
         (\<forall>grp \<in> set duplicate_groups. \<forall>p \<in> set grp.
            Member p \<in> set (audit_lines duplicate_groups (get_selected_files_to_delete duplicate_tree))) \<and>
         (\<exists>listing. audit_lines duplicate_groups (get_selected_files_to_delete duplicate_tree) =
            listing @ DeleteHeader (length (get_selected_files_to_delete duplicate_tree))
                    # map DeleteEntry (get_selected_files_to_delete duplicate_tree))"
proof -
  let ?fs = "get_selected_files_to_delete duplicate_tree"
  let ?a = "audit_lines duplicate_groups ?fs"
  have shape: "evs = [] \<or> evs = [AuditWriteFailed] \<or> evs = [AuditWritten ?a, Confirmed False]
      \<or> (\<exists>rest. evs = AuditWritten ?a # rest)"
  proof (cases "duplicate_groups \<noteq> [] \<and> directory \<noteq> [] \<and> ?fs \<noteq> [] \<and> write_ok \<and> reply_yes")
    case True
    with export_results_confirmed [of duplicate_groups directory duplicate_tree write_ok reply_yes
      path_exists os_remove fs] assms(1)
    show ?thesis by auto
  next
    case False
    then show ?thesis using assms(1) by (auto simp: export_results_def Let_def)
  qed
  have first: "0 < i \<and> evs ! 0 = AuditWritten ?a"
    using shape assms(2,3)
  proof (elim disjE exE)
    fix rest assume "evs = AuditWritten ?a # rest"
    with assms(2,3) show ?thesis by (cases i) auto
  qed (auto simp: nth_Cons' split: if_splits)
  have members: "\<forall>grp \<in> set duplicate_groups. \<forall>p \<in> set grp. Member p \<in> set ?a"
  proof (intro ballI)
    fix grp p assume g: "grp \<in> set duplicate_groups" and p: "p \<in> set grp"
    from g obtain n where n: "n < length duplicate_groups" "duplicate_groups ! n = grp"
      by (auto simp: in_set_conv_nth)
    then have "(n, grp) \<in> set (enumerate 0 duplicate_groups)" by (auto simp: in_set_enumerate_eq)
    with p show "Member p \<in> set ?a" by (force simp: audit_lines_def)
  qed
  have trailing: "\<exists>listing. ?a = listing @ DeleteHeader (length ?fs) # map DeleteEntry ?fs"
    by (intro exI [of _ "Title # concat (map (\<lambda>(i, grp). GroupHeader (i + 1) # map Member grp)
         (enumerate 0 duplicate_groups))"]) (simp add: audit_lines_def)
  from first members trailing show ?thesis by blast
qed

theorem audit_written_before_any_deletion_witness:
  "2 < length (events (export_results fake_exists fake_remove example_groups example_tree ''out'' True True example_files))
   \<and> events (export_results fake_exists fake_remove example_groups example_tree ''out'' True True example_files) ! 2
       = RemoveCalled ''a.png''
   \<and> (0::nat) < 2
   \<and> events (export_results fake_exists fake_remove example_groups example_tree ''out'' True True example_files) ! 0
       = AuditWritten [Title, GroupHeader 1, Member ''k.png'', Member ''a.png'', Member ''b.png'', Member ''c.png'',
           DeleteHeader 3, DeleteEntry ''a.png'', DeleteEntry ''b.png'', DeleteEntry ''c.png'']"
proof -
  let ?evs = "events (export_results fake_exists fake_remove example_groups example_tree ''out'' True True example_files)"
  have l: "2 < length ?evs" by code_simp
  have r: "?evs ! 2 = RemoveCalled ''a.png''" by code_simp
  have a: "audit_lines example_groups (get_selected_files_to_delete example_tree) =
     [Title, GroupHeader 1, Member ''k.png'', Member ''a.png'', Member ''b.png'', Member ''c.png'',
           DeleteHeader 3, DeleteEntry ''a.png'', DeleteEntry ''b.png'', DeleteEntry ''c.png'']" by code_simp
  from audit_written_before_any_deletion [OF refl l r] have "0 < (2::nat) \<and> ?evs ! 0 =
     AuditWritten (audit_lines example_groups (get_selected_files_to_delete example_tree))" by blast
  with l r show ?thesis unfolding a by simp
qed

section \<open>Properties of the feature clustering and of the returned groups\<close>

lemma map_fst_dict_set:
  "map fst (dict_set k v fs) = (if k \<in> fst ` set fs then map fst fs else map fst fs @ [k])"
  by (induction fs) (auto, force)

lemma distinct_dict_set: "distinct (map fst fs) \<Longrightarrow> distinct (map fst (dict_set k v fs))"
  by (simp add: map_fst_dict_set)

lemma distinct_compute_features:
  "distinct (map fst fs) \<Longrightarrow> distinct (map fst (compute_features detect ps fs))"
  by (induction ps arbitrary: fs) (auto simp: distinct_dict_set split: option.splits)

lemma joined_Cons: "joined (e # new) = (if matched e then cand e # joined new else joined new)"
  by (simp add: joined_def)

lemma joined_subset: "set (joined new) \<subseteq> cand ` set new"
  by (auto simp: joined_def)

lemma distinct_joined: "distinct (map cand new) \<Longrightarrow> distinct (joined new)"
  unfolding joined_def by (induction new) auto

lemma scan_result:
  assumes "distinct (map fst rest)" and "path1 \<notin> fst ` set rest"
  shows "\<exists>new. scan good_matches min_matches path1 des1 rest (grp, proc, tr) =
           (grp @ joined new, proc \<union> set (joined new), tr @ new) \<and>
         (\<forall>e \<in> set new. seed e = path1 \<and> cand e \<in> fst ` set rest \<and> cand e \<notin> proc) \<and>
         distinct (map cand new) \<and> sorted_wrt compat new"
  using assms
proof (induction rest arbitrary: grp proc tr)
  case Nil
  show ?case by (intro exI [of _ "[]"]) (simp add: joined_def)
next
  case (Cons x rest)
  obtain path2 des2 where x: "x = (path2, des2)" by (cases x)
  from Cons.prems x have d: "distinct (map fst rest)" "path1 \<notin> fst ` set rest"
    "path2 \<notin> fst ` set rest" "path1 \<noteq> path2" by auto
  show ?case
  proof (cases "path2 \<in> proc")
    case True
    from Cons.IH [OF d(1,2), of grp proc tr] obtain new where
      new: "scan good_matches min_matches path1 des1 rest (grp, proc, tr) =
           (grp @ joined new, proc \<union> set (joined new), tr @ new)"
        "\<forall>e \<in> set new. seed e = path1 \<and> cand e \<in> fst ` set rest \<and> cand e \<notin> proc"
        "distinct (map cand new)" "sorted_wrt compat new" by blast
    show ?thesis
      by (intro exI [of _ new]) (use True x new in auto)
  next
    case False
    define b where "b = (case good_matches des1 des2 of None \<Rightarrow> False | Some n \<Rightarrow> int n \<ge> min_matches)"
    define e where "e = (path1, path2, b)"
    define grp1 where "grp1 = (if b then grp @ [path2] else grp)"
    define proc1 where "proc1 = (if b then insert path2 proc else proc)"
    have step: "scan good_matches min_matches path1 des1 (x # rest) (grp, proc, tr) =
        scan good_matches min_matches path1 des1 rest (grp1, proc1, tr @ [e])"
      using False x by (auto simp: b_def e_def grp1_def proc1_def split: option.splits)
    from Cons.IH [OF d(1,2), of grp1 proc1 "tr @ [e]"] obtain new where
      new: "scan good_matches min_matches path1 des1 rest (grp1, proc1, tr @ [e]) =
           (grp1 @ joined new, proc1 \<union> set (joined new), (tr @ [e]) @ new)"
        "\<forall>e \<in> set new. seed e = path1 \<and> cand e \<in> fst ` set rest \<and> cand e \<notin> proc1"
        "distinct (map cand new)" "sorted_wrt compat new" by blast
    have e: "seed e = path1" "cand e = path2" "matched e = b"
      by (simp_all add: e_def seed_def cand_def matched_def)
    have j: "grp1 @ joined new = grp @ joined (e # new)"
      "proc1 \<union> set (joined new) = proc \<union> set (joined (e # new))"
      by (auto simp: joined_Cons e grp1_def proc1_def)
    have notin: "\<forall>e' \<in> set new. cand e' \<noteq> path2 \<and> cand e' \<noteq> path1 \<and> seed e' = path1"
      using new(2) d by auto
    show ?thesis
    proof (intro exI [of _ "e # new"] conjI)
      show "scan good_matches min_matches path1 des1 (x # rest) (grp, proc, tr) =
          (grp @ joined (e # new), proc \<union> set (joined (e # new)), tr @ e # new)"
        unfolding step new(1) j by simp
      show "\<forall>e \<in> set (e # new). seed e = path1 \<and> cand e \<in> fst ` set (x # rest) \<and> cand e \<notin> proc"
        using new(2) e False x by (auto simp: proc1_def split: if_splits)
      show "distinct (map cand (e # new))" using new(3) notin e by auto
      show "sorted_wrt compat (e # new)" using new(4) notin e d(4) by (auto simp: compat_def)
    qed
  qed
qed

lemma sift_inv_mono:
  "sift_inv remaining st \<Longrightarrow> set remaining' \<subseteq> set remaining \<Longrightarrow> sift_inv remaining' st"
  unfolding sift_inv_def by blast

lemma mem_joined: "p \<in> set (joined new) \<longleftrightarrow> (\<exists>e \<in> set new. matched e \<and> cand e = p)"
  by (auto simp: joined_def)

lemma sift_inv_step:
  assumes inv: "sift_inv (path1 # ks) st"
    and p1: "path1 \<notin> set ks" "path1 \<notin> sift_processed st"
    and new: "\<forall>e \<in> set new. seed e = path1 \<and> cand e \<in> set ks \<and> cand e \<notin> sift_processed st"
      "distinct (map cand new)" "sorted_wrt compat new"
    and tr: "sift_compared st' = sift_compared st @ new"
    and pr: "sift_processed st \<union> set (joined new) \<subseteq> sift_processed st'"
    and gr: "sift_groups st' = sift_groups st \<or>
             (sift_groups st' = sift_groups st @ [path1 # joined new] \<and> joined new \<noteq> [] \<and>
              path1 \<in> sift_processed st')"
  shows "sift_inv ks st'"
proof -
  from inv have i1: "distinct (concat (sift_groups st))"
    and i2: "set (concat (sift_groups st)) \<subseteq> sift_processed st"
    and i3: "\<forall>g \<in> set (sift_groups st). 1 < length g"
    and i4: "\<forall>e \<in> set (sift_compared st).
        (matched e \<longrightarrow> cand e \<in> sift_processed st) \<and> seed e \<notin> set (path1 # ks)"
    and i5: "sorted_wrt compat (sift_compared st)"
    by (auto simp: sift_inv_def)
  have jn: "set (joined new) \<inter> sift_processed st = {}" "path1 \<notin> set (joined new)"
    using new(1) p1 by (auto simp: mem_joined)
  have dj: "distinct (joined new)" using new(2) by (rule distinct_joined)
  have disj: "set (concat (sift_groups st)) \<inter> set (path1 # joined new) = {}"
    using i2 jn(1) p1(2) by auto
  have g1: "distinct (concat (sift_groups st'))"
    using gr i1 disj jn(2) dj by auto
  have g2: "set (concat (sift_groups st')) \<subseteq> sift_processed st'"
    using gr i2 pr by (auto; blast)
  have g3: "\<forall>g \<in> set (sift_groups st'). 1 < length g"
    using gr i3 by (auto simp: neq_Nil_conv)
  have g4: "\<forall>e \<in> set (sift_compared st').
        (matched e \<longrightarrow> cand e \<in> sift_processed st') \<and> seed e \<notin> set ks"
  proof
    fix e assume "e \<in> set (sift_compared st')"
    then consider "e \<in> set (sift_compared st)" | "e \<in> set new" using tr by auto
    then show "(matched e \<longrightarrow> cand e \<in> sift_processed st') \<and> seed e \<notin> set ks"
    proof cases
      case 1 with i4 pr show ?thesis by auto
    next
      case 2
      then have "matched e \<longrightarrow> cand e \<in> set (joined new)" by (auto simp: mem_joined)
      with 2 new(1) p1(1) pr show ?thesis by auto
    qed
  qed
  have cross: "\<forall>e \<in> set (sift_compared st). \<forall>e' \<in> set new. compat e e'"
  proof (intro ballI)
    fix e e' assume e: "e \<in> set (sift_compared st)" and e': "e' \<in> set new"
    from i4 e have a: "matched e \<longrightarrow> cand e \<in> sift_processed st" "seed e \<noteq> path1" "seed e \<notin> set ks"
      by auto
    from new(1) e' have b: "seed e' = path1" "cand e' \<in> set ks" "cand e' \<notin> sift_processed st" by auto
    from a b p1(2) show "compat e e'" unfolding compat_def by metis
  qed
  have g5: "sorted_wrt compat (sift_compared st')"
    unfolding tr using i5 new(3) cross by (simp add: sorted_wrt_append)
  from g1 g2 g3 g4 g5 show ?thesis unfolding sift_inv_def by blast
qed

lemma sift_inv_loop:
  assumes "distinct (map fst rest)" and "sift_inv (map fst rest) st"
  shows "sift_inv [] (sift_loop good_matches min_matches rest st)"
  using assms
proof (induction rest arbitrary: st)
  case Nil
  then show ?case by simp
next
  case (Cons x rest)
  obtain path1 des1 where x: "x = (path1, des1)" by (cases x)
  from Cons.prems x have d: "distinct (map fst rest)" "path1 \<notin> fst ` set rest" by auto
  from Cons.prems(2) x have inv: "sift_inv (path1 # map fst rest) st" by simp
  show ?case
  proof (cases "path1 \<in> sift_processed st")
    case True
    have "sift_inv (map fst rest) st" by (rule sift_inv_mono [OF inv]) auto
    from Cons.IH [OF d(1) this] True x show ?thesis by simp
  next
    case False
    from scan_result [OF d, of good_matches min_matches des1 "[path1]" "sift_processed st" "sift_compared st"]
    obtain new where
      sc: "scan good_matches min_matches path1 des1 rest ([path1], sift_processed st, sift_compared st) =
           ([path1] @ joined new, sift_processed st \<union> set (joined new), sift_compared st @ new)"
      and new: "\<forall>e \<in> set new. seed e = path1 \<and> cand e \<in> fst ` set rest \<and> cand e \<notin> sift_processed st"
        "distinct (map cand new)" "sorted_wrt compat new" by blast
    define st' where "st' = (if 1 < length ([path1] @ joined new)
       then \<lparr>sift_processed = insert path1 (sift_processed st \<union> set (joined new)),
             sift_groups = sift_groups st @ [[path1] @ joined new],
             sift_compared = sift_compared st @ new\<rparr>
       else \<lparr>sift_processed = sift_processed st \<union> set (joined new), sift_groups = sift_groups st,
             sift_compared = sift_compared st @ new\<rparr>)"
    have step: "sift_loop good_matches min_matches (x # rest) st = sift_loop good_matches min_matches rest st'"
      unfolding x st'_def using False sc by simp
    have new': "\<forall>e \<in> set new. seed e = path1 \<and> cand e \<in> set (map fst rest) \<and> cand e \<notin> sift_processed st"
      using new(1) by simp
    have "sift_inv (map fst rest) st'"
    proof (rule sift_inv_step [OF inv _ False new' new(2,3)])
      show "path1 \<notin> set (map fst rest)" using d(2) by simp
      show "sift_compared st' = sift_compared st @ new" by (simp add: st'_def)
      show "sift_processed st \<union> set (joined new) \<subseteq> sift_processed st'" by (auto simp: st'_def)
      show "sift_groups st' = sift_groups st \<or>
             (sift_groups st' = sift_groups st @ [path1 # joined new] \<and> joined new \<noteq> [] \<and>
              path1 \<in> sift_processed st')"
        by (cases "joined new") (auto simp: st'_def)
    qed
    from Cons.IH [OF d(1) this] step show ?thesis by simp
  qed
qed

lemma sift_inv_run: "sift_inv [] (sift_run detect good_matches min_matches image_paths)"
  unfolding sift_run_def
  by (rule sift_inv_loop) (simp_all add: distinct_compute_features sift_inv_def)

lemma distinct_concat_member: "distinct (concat xss) \<Longrightarrow> xs \<in> set xss \<Longrightarrow> distinct xs"
  by (induction xss) auto

lemma distinct_concat_disjoint:
  "distinct (concat xss) \<Longrightarrow> i < j \<Longrightarrow> j < length xss \<Longrightarrow> set (xss ! i) \<inter> set (xss ! j) = {}"
proof (induction xss arbitrary: i j)
  case Nil
  then show ?case by simp
next
  case (Cons xs xss)
  from Cons.prems obtain j' where j: "j = Suc j'" "j' < length xss" by (cases j) auto
  show ?case
  proof (cases i)
    case 0
    have "xss ! j' \<in> set xss" using j by simp
    with Cons.prems(1) have "set xs \<inter> set (xss ! j') = {}" by auto
    with 0 j show ?thesis by simp
  next
    case (Suc i')
    with Cons.prems j have "set (xss ! i') \<inter> set (xss ! j') = {}"
      by (intro Cons.IH) auto
    with Suc j show ?thesis by simp
  qed
qed

lemma mset_hash_step:
  "mset (concat (map snd (hash_step compute_hash t gs p))) =
     mset (concat (map snd gs)) + mset (filter (\<lambda>p. compute_hash p \<noteq> None) [p])"
  by (auto simp: hash_step_def mset_concat_dict_append split: option.splits)

lemma mset_hash_loop:
  "mset (concat (map snd (hash_loop compute_hash t ps gs))) =
     mset (concat (map snd gs)) + mset (filter (\<lambda>p. compute_hash p \<noteq> None) ps)"
proof (induction ps arbitrary: gs)
  case Nil
  then show ?case by simp
next
  case (Cons p ps)
  have "mset (concat (map snd (hash_loop compute_hash t (p # ps) gs))) =
      mset (concat (map snd (hash_step compute_hash t gs p))) + mset (filter (\<lambda>p. compute_hash p \<noteq> None) ps)"
    using Cons.IH [of "hash_step compute_hash t gs p"] by simp
  also have "\<dots> = mset (concat (map snd gs)) + mset (filter (\<lambda>p. compute_hash p \<noteq> None) [p])
      + mset (filter (\<lambda>p. compute_hash p \<noteq> None) ps)"
    by (simp only: mset_hash_step)
  also have "\<dots> = mset (concat (map snd gs)) + mset (filter (\<lambda>p. compute_hash p \<noteq> None) (p # ps))"
    by simp
  finally show ?case .
qed

lemma hash_groups_distinct:
  assumes "distinct image_paths"
  shows "distinct (concat (map snd (hash_groups_of compute_hash t image_paths)))"
proof -
  have "mset (concat (map snd (hash_groups_of compute_hash t image_paths))) =
      mset (filter (\<lambda>p. compute_hash p \<noteq> None) image_paths)"
    by (simp add: hash_groups_of_def mset_hash_loop)
  moreover have "distinct (filter (\<lambda>p. compute_hash p \<noteq> None) image_paths)"
    using assms by simp
  ultimately show ?thesis by (metis mset_eq_imp_distinct_iff)
qed

lemma hash_result_as_filter:
  "find_duplicate_groups compute_hash t image_paths =
     map snd (filter (\<lambda>kv. 1 < length (snd kv)) (hash_groups_of compute_hash t image_paths))"
  by (simp add: find_duplicate_groups_def filter_map comp_def)

lemma hash_groups_disjoint:
  assumes "i < j" and "j < length (find_duplicate_groups compute_hash t image_paths)"
  shows "set (find_duplicate_groups compute_hash t image_paths ! i) \<inter>
         set (find_duplicate_groups compute_hash t image_paths ! j) = {}"
proof -
  let ?gs = "hash_groups_of compute_hash t image_paths"
  let ?gs' = "filter (\<lambda>kv. 1 < length (snd kv)) ?gs"
  have inv: "hash_inv compute_hash t ?gs" by (rule hash_inv_groups_of)
  have len: "j < length ?gs'" "i < length ?gs'" using assms by (simp_all add: hash_result_as_filter)
  have dist: "distinct (map fst ?gs')" using inv by (simp add: hash_inv_def distinct_map_filter)
  have key: "fst (?gs' ! n) = target_key t (map fst ?gs) h"
    if "n < length ?gs'" "p \<in> set (snd (?gs' ! n))" "compute_hash p = Some h" for n p h
  proof -
    have "?gs' ! n \<in> set ?gs" using that(1) nth_mem [of n ?gs'] by auto
    then have "(fst (?gs' ! n), snd (?gs' ! n)) \<in> set ?gs" by simp
    with inv that(2) obtain h' where "compute_hash p = Some h'"
      "target_key t (map fst ?gs) h' = fst (?gs' ! n)"
      unfolding hash_inv_def by fastforce
    with that(3) show ?thesis by simp
  qed
  have mem: "\<exists>h. compute_hash p = Some h" if "n < length ?gs'" "p \<in> set (snd (?gs' ! n))" for n p
  proof -
    have "?gs' ! n \<in> set ?gs" using that(1) nth_mem [of n ?gs'] by auto
    then have "(fst (?gs' ! n), snd (?gs' ! n)) \<in> set ?gs" by simp
    with inv that(2) show ?thesis unfolding hash_inv_def by fastforce
  qed
  have "set (snd (?gs' ! i)) \<inter> set (snd (?gs' ! j)) = {}"
  proof (rule ccontr)
    assume "set (snd (?gs' ! i)) \<inter> set (snd (?gs' ! j)) \<noteq> {}"
    then obtain p where p: "p \<in> set (snd (?gs' ! i))" "p \<in> set (snd (?gs' ! j))" by auto
    from mem [OF len(2) p(1)] obtain h where h: "compute_hash p = Some h" by blast
    have "fst (?gs' ! i) = fst (?gs' ! j)"
      using key [OF len(2) p(1) h] key [OF len(1) p(2) h] by simp
    with distinct_first_index [OF dist len(1) assms(1)] show False by simp
  qed
  then show ?thesis using len by (simp add: hash_result_as_filter)
qed

text \<open>
  C3, as stated, fails for the hash clustering when the input names one file twice (the image
  list of the controller is appended to without a check): the file is grouped with itself.
\<close>

theorem duplicate_path_counterexample:
  "find_duplicate_groups twice_hash 5 [''a.png'', ''a.png''] = [[''a.png'', ''a.png'']]
   \<and> \<not> distinct [''a.png'', ''a.png'']"
  by code_simp

text \<open>
  C3, amended. For every input and threshold and both methods, every returned group has at
  least two members and two different returned groups share no path. No path occurs twice in a
  group of the feature clustering; for the hash clustering this holds when the input list has no
  repeated path.
\<close>

theorem groups_disjoint_and_plural:
  assumes "hash_result = find_duplicate_groups compute_hash threshold image_paths"
    and "sift_result = find_duplicate_groups_by_sift detect good_matches min_matches image_paths"
  shows "(\<forall>g \<in> set hash_result. 2 \<le> length g) \<and>
         (\<forall>i j. i < j \<and> j < length hash_result \<longrightarrow> set (hash_result ! i) \<inter> set (hash_result ! j) = {}) \<and>
         (distinct image_paths \<longrightarrow> (\<forall>g \<in> set hash_result. distinct g)) \<and>
         (\<forall>g \<in> set sift_result. 2 \<le> length g \<and> distinct g) \<and>
         (\<forall>i j. i < j \<and> j < length sift_result \<longrightarrow> set (sift_result ! i) \<inter> set (sift_result ! j) = {})"
proof (intro conjI)
  show "\<forall>g \<in> set hash_result. 2 \<le> length g"
    unfolding assms(1) by (auto simp: find_duplicate_groups_def)
  show "\<forall>i j. i < j \<and> j < length hash_result \<longrightarrow> set (hash_result ! i) \<inter> set (hash_result ! j) = {}"
    unfolding assms(1) using hash_groups_disjoint by blast
  show "distinct image_paths \<longrightarrow> (\<forall>g \<in> set hash_result. distinct g)"
  proof (intro impI ballI)
    fix g assume d: "distinct image_paths" and g: "g \<in> set hash_result"
    from g have "g \<in> set (map snd (hash_groups_of compute_hash threshold image_paths))"
      unfolding assms(1) find_duplicate_groups_def by simp
    with hash_groups_distinct [OF d, of compute_hash threshold] show "distinct g"
      by (rule distinct_concat_member)
  qed
  have inv: "sift_inv [] (sift_run detect good_matches min_matches image_paths)" by (rule sift_inv_run)
  have sr: "sift_result = sift_groups (sift_run detect good_matches min_matches image_paths)"
    unfolding assms(2) by (simp add: find_duplicate_groups_by_sift_def)
  from inv have dc: "distinct (concat sift_result)" and ln: "\<forall>g \<in> set sift_result. 1 < length g"
    unfolding sr sift_inv_def by auto
  show "\<forall>g \<in> set sift_result. 2 \<le> length g \<and> distinct g"
    using ln distinct_concat_member [OF dc] by auto
  show "\<forall>i j. i < j \<and> j < length sift_result \<longrightarrow> set (sift_result ! i) \<inter> set (sift_result ! j) = {}"
    using distinct_concat_disjoint [OF dc] by blast
qed

theorem groups_disjoint_and_plural_witness:
  "find_duplicate_groups seed_only_hash 1 [''s.png'', ''m1.png'', ''m2.png''] = [[''s.png'', ''m1.png'', ''m2.png'']]
   \<and> find_duplicate_groups_by_sift example_detect chain_matches 10 [''a.png'', ''b.png'', ''c.png'']
       = [[''a.png'', ''b.png'']]
   \<and> distinct [''s.png'', ''m1.png'', ''m2.png'']
   \<and> 2 \<le> length [''s.png'', ''m1.png'', ''m2.png'']
   \<and> 2 \<le> length [''a.png'', ''b.png''] \<and> distinct [''a.png'', ''b.png'']"
proof -
  have h: "find_duplicate_groups seed_only_hash 1 [''s.png'', ''m1.png'', ''m2.png''] = [[''s.png'', ''m1.png'', ''m2.png'']]"
    by code_simp
  have s: "find_duplicate_groups_by_sift example_detect chain_matches 10 [''a.png'', ''b.png'', ''c.png'']
       = [[''a.png'', ''b.png'']]" by code_simp
  have d: "distinct [''s.png'', ''m1.png'', ''m2.png'']" by simp
  from groups_disjoint_and_plural [OF refl refl, of seed_only_hash 1 "[''s.png'', ''m1.png'', ''m2.png'']"
      example_detect chain_matches 10] d
  have "\<forall>g \<in> set (find_duplicate_groups seed_only_hash 1 [''s.png'', ''m1.png'', ''m2.png'']).
         2 \<le> length g \<and> distinct g" by blast
  then have a: "2 \<le> length [''s.png'', ''m1.png'', ''m2.png'']" unfolding h by simp
  from groups_disjoint_and_plural [OF refl refl, of seed_only_hash 1 "[''a.png'', ''b.png'', ''c.png'']"
      example_detect chain_matches 10]
  have "\<forall>g \<in> set (find_duplicate_groups_by_sift example_detect chain_matches 10 [''a.png'', ''b.png'', ''c.png'']).
         2 \<le> length g \<and> distinct g" by blast
  then have b: "2 \<le> length [''a.png'', ''b.png''] \<and> distinct [''a.png'', ''b.png'']"
    unfolding s by simp
  from h s d a b show ?thesis by blast
qed

lemma sift_trace_ordered:
  "sorted_wrt compat (sift_compared (sift_run detect good_matches min_matches image_paths))"
  using sift_inv_run [of detect good_matches min_matches image_paths] by (simp add: sift_inv_def)

lemma sift_trace_pair:
  assumes "m < n" and "n < length (sift_compared (sift_run detect good_matches min_matches image_paths))"
  shows "compat (sift_compared (sift_run detect good_matches min_matches image_paths) ! m)
                (sift_compared (sift_run detect good_matches min_matches image_paths) ! n)"
  using sift_trace_ordered [of detect good_matches min_matches image_paths] assms
  by (simp add: sorted_wrt_iff_nth_less)

text \<open>
  What the guard \<^verbatim>\<open>if path2 in processed: continue\<close> and the scan of \<^verbatim>\<open>paths[i+1:]\<close> exclude:
  once a candidate \<open>q\<close> has been appended to the group seeded by \<open>s\<close>, no later comparison has
  \<open>q\<close> or \<open>s\<close> as its candidate and none is seeded by \<open>q\<close>.
\<close>

lemma grouped_image_never_candidate_again:
  assumes "tr = sift_compared (sift_run detect good_matches min_matches image_paths)"
    and "m < n" and "n < length tr"
    and "tr ! m = (s, q, True)" and "tr ! n = (s', q', b')"
  shows "q' \<noteq> q \<and> q' \<noteq> s \<and> s' \<noteq> q"
proof -
  have "compat (tr ! m) (tr ! n)" unfolding assms(1) using assms(2,3) unfolding assms(1)
    by (rule sift_trace_pair)
  then show ?thesis unfolding assms(4,5) by (simp add: compat_def seed_def cand_def matched_def)
qed

lemma sift_group_heads_apart:
  assumes "i < length (sift_groups (sift_run detect good_matches min_matches image_paths))"
    and "j < length (sift_groups (sift_run detect good_matches min_matches image_paths))"
    and "i \<noteq> j"
  shows "hd (sift_groups (sift_run detect good_matches min_matches image_paths) ! j)
           \<notin> set (sift_groups (sift_run detect good_matches min_matches image_paths) ! i)"
proof -
  let ?res = "sift_groups (sift_run detect good_matches min_matches image_paths)"
  have inv: "sift_inv [] (sift_run detect good_matches min_matches image_paths)" by (rule sift_inv_run)
  then have dc: "distinct (concat ?res)" and ln: "\<forall>g \<in> set ?res. 1 < length g"
    unfolding sift_inv_def by auto
  have "?res ! j \<in> set ?res" using assms(2) by simp
  with ln have "?res ! j \<noteq> []" by auto
  then have hj: "hd (?res ! j) \<in> set (?res ! j)" by simp
  have "set (?res ! i) \<inter> set (?res ! j) = {}"
  proof (cases "i < j")
    case True
    then show ?thesis using distinct_concat_disjoint [OF dc _ assms(2)] by blast
  next
    case False
    with assms(3) have "j < i" by simp
    then show ?thesis using distinct_concat_disjoint [OF dc _ assms(1)] by blast
  qed
  with hj show ?thesis by blast
qed

text \<open>
  C4. An image that has been placed in a group never seeds a new one: an appended member is
  never the seed of a later comparison, and the first member of a returned group lies in no
  other returned group. The descriptors of the seed are still used after the seed is grouped:
  for some input, the seed whose group already holds a second image is compared with a later
  image. In the example the first image is grouped with the second and is then matched against
  the third.
\<close>

theorem grouped_seed_matched_against_later_images:
  "(\<forall>(detect :: path \<Rightarrow> 'd option) good_matches min_matches image_paths m n.
      m < n \<and> n < length (sift_compared (sift_run detect good_matches min_matches image_paths)) \<and>
      matched (sift_compared (sift_run detect good_matches min_matches image_paths) ! m)
      \<longrightarrow> seed (sift_compared (sift_run detect good_matches min_matches image_paths) ! n)
            \<noteq> cand (sift_compared (sift_run detect good_matches min_matches image_paths) ! m))
   \<and> (\<forall>(detect :: path \<Rightarrow> 'd option) good_matches min_matches image_paths i j.
      i < length (find_duplicate_groups_by_sift detect good_matches min_matches image_paths) \<and>
      j < length (find_duplicate_groups_by_sift detect good_matches min_matches image_paths) \<and> i \<noteq> j
      \<longrightarrow> hd (find_duplicate_groups_by_sift detect good_matches min_matches image_paths ! j)
            \<notin> set (find_duplicate_groups_by_sift detect good_matches min_matches image_paths ! i))
   \<and> (\<exists>(detect :: path \<Rightarrow> nat option) good_matches min_matches image_paths m n s q q' b.
      m < n \<and> n < length (sift_compared (sift_run detect good_matches min_matches image_paths)) \<and>
      sift_compared (sift_run detect good_matches min_matches image_paths) ! m = (s, q, True) \<and>
      sift_compared (sift_run detect good_matches min_matches image_paths) ! n = (s, q', b) \<and>
      q' \<noteq> q \<and> q' \<noteq> s \<and>
      find_duplicate_groups_by_sift detect good_matches min_matches image_paths = [[s, q]])"
proof (intro conjI allI impI)
  fix detect :: "path \<Rightarrow> 'd option" and good_matches min_matches image_paths m n
  let ?tr = "sift_compared (sift_run detect good_matches min_matches image_paths)"
  assume a: "m < n \<and> n < length ?tr \<and> matched (?tr ! m)"
  then have "compat (?tr ! m) (?tr ! n)" using sift_trace_pair by blast
  with a show "seed (?tr ! n) \<noteq> cand (?tr ! m)" by (simp add: compat_def)
next
  fix detect :: "path \<Rightarrow> 'd option" and good_matches min_matches image_paths i j
  let ?res = "find_duplicate_groups_by_sift detect good_matches min_matches image_paths"
  assume "i < length ?res \<and> j < length ?res \<and> i \<noteq> j"
  then show "hd (?res ! j) \<notin> set (?res ! i)"
    unfolding find_duplicate_groups_by_sift_def using sift_group_heads_apart by blast
next
  let ?tr = "sift_compared (sift_run example_detect chain_matches 10 [''a.png'', ''b.png'', ''c.png''])"
  have t: "?tr = [(''a.png'', ''b.png'', True), (''a.png'', ''c.png'', False)]" by code_simp
  have g: "find_duplicate_groups_by_sift example_detect chain_matches 10 [''a.png'', ''b.png'', ''c.png'']
       = [[''a.png'', ''b.png'']]" by code_simp
  have "(0::nat) < 1 \<and> 1 < length ?tr \<and> ?tr ! 0 = (''a.png'', ''b.png'', True) \<and>
      ?tr ! 1 = (''a.png'', ''c.png'', False) \<and> ''c.png'' \<noteq> ''b.png'' \<and> ''c.png'' \<noteq> ''a.png'' \<and>
      find_duplicate_groups_by_sift example_detect chain_matches 10 [''a.png'', ''b.png'', ''c.png'']
        = [[''a.png'', ''b.png'']]"
    unfolding t using g by simp
  then show "\<exists>(detect :: path \<Rightarrow> nat option) good_matches min_matches image_paths m n s q q' b.
      m < n \<and> n < length (sift_compared (sift_run detect good_matches min_matches image_paths)) \<and>
      sift_compared (sift_run detect good_matches min_matches image_paths) ! m = (s, q, True) \<and>
      sift_compared (sift_run detect good_matches min_matches image_paths) ! n = (s, q', b) \<and>
      q' \<noteq> q \<and> q' \<noteq> s \<and>
      find_duplicate_groups_by_sift detect good_matches min_matches image_paths = [[s, q]]"
    by blast
qed

theorem grouped_seed_matched_against_later_images_witness:
  "sift_compared (sift_run example_detect chain_matches 10 [''a.png'', ''b.png'', ''c.png''])
     = [(''a.png'', ''b.png'', True), (''a.png'', ''c.png'', False)]
   \<and> find_duplicate_groups_by_sift example_detect chain_matches 10 [''a.png'', ''b.png'', ''c.png'']
       = [[''a.png'', ''b.png'']]
   \<and> (0::nat) < 1
   \<and> 1 < length (sift_compared (sift_run example_detect chain_matches 10 [''a.png'', ''b.png'', ''c.png'']))
   \<and> matched (sift_compared (sift_run example_detect chain_matches 10 [''a.png'', ''b.png'', ''c.png'']) ! 0)
   \<and> seed (sift_compared (sift_run example_detect chain_matches 10 [''a.png'', ''b.png'', ''c.png'']) ! 1)
       \<noteq> cand (sift_compared (sift_run example_detect chain_matches 10 [''a.png'', ''b.png'', ''c.png'']) ! 0)"
proof -
  let ?tr = "sift_compared (sift_run example_detect chain_matches 10 [''a.png'', ''b.png'', ''c.png''])"
  have t: "?tr = [(''a.png'', ''b.png'', True), (''a.png'', ''c.png'', False)]" by code_simp
  have g: "find_duplicate_groups_by_sift example_detect chain_matches 10 [''a.png'', ''b.png'', ''c.png'']
       = [[''a.png'', ''b.png'']]" by code_simp
  have h: "(0::nat) < 1" "1 < length ?tr" "matched (?tr ! 0)"
    unfolding t by (simp_all add: matched_def)
  from conjunct1 [OF grouped_seed_matched_against_later_images] h
  have "seed (?tr ! 1) \<noteq> cand (?tr ! 0)" by blast
  with t g h show ?thesis by blast
qed

lemma scan_all_match:
  assumes "min_matches \<le> 0" and "\<forall>d1 d2. good_matches d1 d2 \<noteq> None"
    and "distinct (map fst rest)" and "fst ` set rest \<inter> proc = {}"
  shows "scan good_matches min_matches path1 des1 rest (grp, proc, tr) =
           (grp @ map fst rest, proc \<union> fst ` set rest, tr @ map (\<lambda>p. (path1, p, True)) (map fst rest))"
  using assms(3,4)
proof (induction rest arbitrary: grp proc tr)
  case Nil
  then show ?case by simp
next
  case (Cons x rest)
  obtain path2 des2 where x: "x = (path2, des2)" by (cases x)
  from assms(2) have "good_matches des1 des2 \<noteq> None" by blast
  then obtain n where n: "good_matches des1 des2 = Some n" by blast
  have ge: "min_matches \<le> int n" using assms(1) by simp
  from Cons.prems x have p: "path2 \<notin> proc" "distinct (map fst rest)"
    "fst ` set rest \<inter> insert path2 proc = {}" by auto
  have "scan good_matches min_matches path1 des1 (x # rest) (grp, proc, tr) =
      scan good_matches min_matches path1 des1 rest
        (grp @ [path2], insert path2 proc, tr @ [(path1, path2, True)])"
    using x n ge p(1) by simp
  also have "\<dots> = ((grp @ [path2]) @ map fst rest, insert path2 proc \<union> fst ` set rest,
      (tr @ [(path1, path2, True)]) @ map (\<lambda>p. (path1, p, True)) (map fst rest))"
    by (rule Cons.IH [OF p(2,3)])
  finally show ?case using x by simp
qed

lemma sift_loop_skip:
  "fst ` set rest \<subseteq> sift_processed st \<Longrightarrow> sift_loop good_matches min_matches rest st = st"
  by (induction rest arbitrary: st) auto

text \<open>
  C5, as stated, fails: with \<open>min_matches\<close> 0 or negative the call computes the features,
  compares the pair and returns a group.
\<close>

theorem nonpositive_min_matches_counterexample:
  "compute_features example_detect [''a.png'', ''b.png''] [] = [(''a.png'', 1), (''b.png'', 2)]
   \<and> no_matches 1 2 = Some 0
   \<and> sift_compared (sift_run example_detect no_matches 0 [''a.png'', ''b.png'']) = [(''a.png'', ''b.png'', True)]
   \<and> find_duplicate_groups_by_sift example_detect no_matches 0 [''a.png'', ''b.png''] = [[''a.png'', ''b.png'']]
   \<and> find_duplicate_groups_by_sift example_detect no_matches (- 3) [''a.png'', ''b.png''] = [[''a.png'', ''b.png'']]"
  by code_simp

text \<open>
  With a non-positive \<open>min_matches\<close> and a matcher that never raises, all images with
  descriptors form one group, each compared once with the first.
\<close>

lemma never_raising_matcher_single_group:
  assumes "min_matches < 1" and "\<forall>d1 d2. good_matches d1 d2 \<noteq> None"
    and "features = compute_features detect image_paths []" and "2 \<le> length features"
  shows "find_duplicate_groups_by_sift detect good_matches min_matches image_paths = [map fst features]
         \<and> sift_compared (sift_run detect good_matches min_matches image_paths) =
             map (\<lambda>p. (fst (hd features), p, True)) (tl (map fst features))"
proof -
  from assms(4) obtain path1 des1 rest where f: "features = (path1, des1) # rest" "rest \<noteq> []"
    by (cases features) (auto simp: Suc_le_eq)
  have d: "distinct (map fst features)" unfolding assms(3) by (simp add: distinct_compute_features)
  with f have dr: "distinct (map fst rest)" "path1 \<notin> fst ` set rest" by auto
  have mm: "min_matches \<le> 0" using assms(1) by simp
  have sc: "scan good_matches min_matches path1 des1 rest ([path1], {}, []) =
      ([path1] @ map fst rest, {} \<union> fst ` set rest, [] @ map (\<lambda>p. (path1, p, True)) (map fst rest))"
    by (rule scan_all_match [OF mm assms(2) dr(1)]) simp
  let ?st = "\<lparr>sift_processed = insert path1 (fst ` set rest), sift_groups = [path1 # map fst rest],
      sift_compared = map (\<lambda>p. (path1, p, True)) (map fst rest)\<rparr>"
  have "sift_run detect good_matches min_matches image_paths = sift_loop good_matches min_matches rest ?st"
    unfolding sift_run_def assms(3) [symmetric] f(1) using sc f(2) by simp
  also have "\<dots> = ?st" by (rule sift_loop_skip) auto
  finally show ?thesis using f(1) by (simp add: find_duplicate_groups_by_sift_def)
qed

lemma scan_step:
  "path2 \<notin> proc \<Longrightarrow>
   scan good_matches min_matches path1 des1 ((path2, des2) # rest) (grp, proc, tr) =
     scan good_matches min_matches path1 des1 rest
       (if decides good_matches min_matches des1 des2 then grp @ [path2] else grp,
        if decides good_matches min_matches des1 des2 then insert path2 proc else proc,
        tr @ [(path1, path2, decides good_matches min_matches des1 des2)])"
  by (auto simp: decides_def split: option.splits)

lemma scan_explained:
  assumes "(path1, des1) \<in> F" and "set rest \<subseteq> F"
    and "\<forall>e \<in> set tr. explained good_matches min_matches F e"
  shows "\<forall>e \<in> set (snd (snd (scan good_matches min_matches path1 des1 rest (grp, proc, tr)))).
           explained good_matches min_matches F e"
  using assms(2,3)
proof (induction rest arbitrary: grp proc tr)
  case Nil
  then show ?case by simp
next
  case (Cons x rest)
  obtain path2 des2 where x: "x = (path2, des2)" by (cases x)
  from Cons.prems x have sub: "set rest \<subseteq> F" and in2: "(path2, des2) \<in> F" by auto
  show ?case
  proof (cases "path2 \<in> proc")
    case True
    with x Cons.IH [OF sub Cons.prems(2)] show ?thesis by simp
  next
    case False
    let ?b = "decides good_matches min_matches des1 des2"
    have "explained good_matches min_matches F (path1, path2, ?b)"
      unfolding explained_def seed_def cand_def matched_def using assms(1) in2 by auto
    with Cons.prems(2) have tr': "\<forall>e \<in> set (tr @ [(path1, path2, ?b)]). explained good_matches min_matches F e"
      by auto
    show ?thesis unfolding x scan_step [OF False] by (rule Cons.IH [OF sub tr'])
  qed
qed

lemma sift_loop_explained:
  assumes "set rest \<subseteq> F" and "\<forall>e \<in> set (sift_compared st). explained good_matches min_matches F e"
  shows "\<forall>e \<in> set (sift_compared (sift_loop good_matches min_matches rest st)).
           explained good_matches min_matches F e"
  using assms
proof (induction rest arbitrary: st)
  case Nil
  then show ?case by simp
next
  case (Cons x rest)
  obtain path1 des1 where x: "x = (path1, des1)" by (cases x)
  from Cons.prems x have sub: "set rest \<subseteq> F" and in1: "(path1, des1) \<in> F" by auto
  show ?case
  proof (cases "path1 \<in> sift_processed st")
    case True
    with x Cons.IH [OF sub Cons.prems(2)] show ?thesis by simp
  next
    case False
    obtain grp proc tr where sc:
      "scan good_matches min_matches path1 des1 rest ([path1], sift_processed st, sift_compared st) = (grp, proc, tr)"
      by (cases "scan good_matches min_matches path1 des1 rest ([path1], sift_processed st, sift_compared st)")
    have tr: "\<forall>e \<in> set tr. explained good_matches min_matches F e"
      using scan_explained [OF in1 sub Cons.prems(2), of "[path1]" "sift_processed st"] sc by simp
    show ?thesis
    proof (cases "1 < length grp")
      case True
      have "\<forall>e \<in> set (sift_compared (sift_loop good_matches min_matches rest
          \<lparr>sift_processed = insert path1 proc, sift_groups = sift_groups st @ [grp], sift_compared = tr\<rparr>)).
          explained good_matches min_matches F e"
        by (rule Cons.IH [OF sub]) (use tr in simp)
      with x False sc True show ?thesis by simp
    next
      case no: False
      have "\<forall>e \<in> set (sift_compared (sift_loop good_matches min_matches rest
          \<lparr>sift_processed = proc, sift_groups = sift_groups st, sift_compared = tr\<rparr>)).
          explained good_matches min_matches F e"
        by (rule Cons.IH [OF sub]) (use tr in simp)
      with x False sc no show ?thesis by simp
    qed
  qed
qed

lemma scan_trace_extends:
  "\<exists>new. snd (snd (scan good_matches min_matches path1 des1 rest (grp, proc, tr))) = tr @ new"
proof (induction rest arbitrary: grp proc tr)
  case Nil
  then show ?case by simp
next
  case (Cons x rest)
  obtain path2 des2 where x: "x = (path2, des2)" by (cases x)
  show ?case
  proof (cases "path2 \<in> proc")
    case True
    with x Cons.IH [of grp proc tr] show ?thesis by simp
  next
    case False
    let ?b = "decides good_matches min_matches des1 des2"
    from Cons.IH [of "if ?b then grp @ [path2] else grp" "if ?b then insert path2 proc else proc"
        "tr @ [(path1, path2, ?b)]"]
    obtain new where "snd (snd (scan good_matches min_matches path1 des1 rest
        (if ?b then grp @ [path2] else grp, if ?b then insert path2 proc else proc, tr @ [(path1, path2, ?b)])))
        = (tr @ [(path1, path2, ?b)]) @ new" by blast
    then show ?thesis unfolding x scan_step [OF False] by (intro exI [of _ "(path1, path2, ?b) # new"]) simp
  qed
qed

lemma sift_loop_trace_extends:
  "\<exists>more. sift_compared (sift_loop good_matches min_matches rest st) = sift_compared st @ more"
proof (induction rest arbitrary: st)
  case Nil
  then show ?case by simp
next
  case (Cons x rest)
  obtain path1 des1 where x: "x = (path1, des1)" by (cases x)
  show ?case
  proof (cases "path1 \<in> sift_processed st")
    case True
    with x Cons.IH [of st] show ?thesis by simp
  next
    case False
    obtain grp proc tr where sc:
      "scan good_matches min_matches path1 des1 rest ([path1], sift_processed st, sift_compared st) = (grp, proc, tr)"
      by (cases "scan good_matches min_matches path1 des1 rest ([path1], sift_processed st, sift_compared st)")
    from scan_trace_extends [of good_matches min_matches path1 des1 rest "[path1]" "sift_processed st" "sift_compared st"]
      sc obtain new where new: "tr = sift_compared st @ new" by auto
    show ?thesis
    proof (cases "1 < length grp")
      case True
      from Cons.IH [of "\<lparr>sift_processed = insert path1 proc, sift_groups = sift_groups st @ [grp], sift_compared = tr\<rparr>"]
      obtain more where "sift_compared (sift_loop good_matches min_matches rest
          \<lparr>sift_processed = insert path1 proc, sift_groups = sift_groups st @ [grp], sift_compared = tr\<rparr>) = tr @ more"
        by auto
      with x False sc True new show ?thesis by (intro exI [of _ "new @ more"]) simp
    next
      case no: False
      from Cons.IH [of "\<lparr>sift_processed = proc, sift_groups = sift_groups st, sift_compared = tr\<rparr>"]
      obtain more where "sift_compared (sift_loop good_matches min_matches rest
          \<lparr>sift_processed = proc, sift_groups = sift_groups st, sift_compared = tr\<rparr>) = tr @ more"
        by auto
      with x False sc no new show ?thesis by (intro exI [of _ "new @ more"]) simp
    qed
  qed
qed

lemma first_pair_compared:
  assumes "features = (path1, des1) # (path2, des2) # rest"
  shows "\<exists>more. sift_compared (sift_loop good_matches min_matches features
            \<lparr>sift_processed = {}, sift_groups = [], sift_compared = []\<rparr>) =
           (path1, path2, decides good_matches min_matches des1 des2) # more"
proof -
  let ?b = "decides good_matches min_matches des1 des2"
  let ?init = "\<lparr>sift_processed = {}, sift_groups = [], sift_compared = []\<rparr>"
  obtain grp proc tr where sc:
    "scan good_matches min_matches path1 des1 ((path2, des2) # rest) ([path1], {}, []) = (grp, proc, tr)"
    by (cases "scan good_matches min_matches path1 des1 ((path2, des2) # rest) ([path1], {}, [])")
  define G where "G = (if ?b then [path1] @ [path2] else [path1])"
  define P where "P = (if ?b then insert path2 {} else ({} :: path set))"
  have st: "scan good_matches min_matches path1 des1 ((path2, des2) # rest) ([path1], {}, []) =
      scan good_matches min_matches path1 des1 rest (G, P, [] @ [(path1, path2, ?b)])"
    unfolding G_def P_def by (rule scan_step) simp
  from scan_trace_extends [of good_matches min_matches path1 des1 rest G P "[] @ [(path1, path2, ?b)]"]
  obtain new where
    "snd (snd (scan good_matches min_matches path1 des1 rest (G, P, [] @ [(path1, path2, ?b)]))) =
       ([] @ [(path1, path2, ?b)]) @ new" by blast
  then have "snd (snd (grp, proc, tr)) = ([] @ [(path1, path2, ?b)]) @ new"
    by (simp only: sc [symmetric] st)
  then have new: "tr = (path1, path2, ?b) # new" by simp
  show ?thesis
  proof (cases "1 < length grp")
    case True
    from sift_loop_trace_extends [of good_matches min_matches "(path2, des2) # rest"
        "\<lparr>sift_processed = insert path1 proc, sift_groups = [] @ [grp], sift_compared = tr\<rparr>"]
    obtain more where "sift_compared (sift_loop good_matches min_matches ((path2, des2) # rest)
        \<lparr>sift_processed = insert path1 proc, sift_groups = [] @ [grp], sift_compared = tr\<rparr>) = tr @ more"
      by auto
    with sc True new show ?thesis unfolding assms by (intro exI [of _ "new @ more"]) simp
  next
    case False
    from sift_loop_trace_extends [of good_matches min_matches "(path2, des2) # rest"
        "\<lparr>sift_processed = proc, sift_groups = [], sift_compared = tr\<rparr>"]
    obtain more where "sift_compared (sift_loop good_matches min_matches ((path2, des2) # rest)
        \<lparr>sift_processed = proc, sift_groups = [], sift_compared = tr\<rparr>) = tr @ more"
      by auto
    with sc False new show ?thesis unfolding assms by (intro exI [of _ "new @ more"]) simp
  qed
qed

lemma decides_nonpositive:
  "min_matches < 1 \<Longrightarrow> decides good_matches min_matches des1 des2 \<longleftrightarrow> good_matches des1 des2 \<noteq> None"
  by (auto simp: decides_def split: option.splits)

text \<open>
  C5, amended. \<open>min_matches\<close> is not validated and the call has no error result. With
  \<open>min_matches < 1\<close>, for every input: each comparison made is between two images of the feature
  dictionary, and its candidate is appended exactly when the matcher does not raise on that
  pair; when at least two images have descriptors the first two are compared, so work is done;
  and when moreover the matcher never raises, the result is the single group of all images
  with descriptors, in input order, each compared once with the first.
\<close>

theorem nonpositive_min_matches_is_not_rejected:
  assumes "min_matches < 1"
    and "features = compute_features detect image_paths []"
    and "tr = sift_compared (sift_run detect good_matches min_matches image_paths)"
  shows "(\<forall>e \<in> set tr. \<exists>des1 des2. (seed e, des1) \<in> set features \<and> (cand e, des2) \<in> set features \<and>
            (matched e \<longleftrightarrow> good_matches des1 des2 \<noteq> None))
     \<and> (2 \<le> length features \<longrightarrow>
          tr \<noteq> [] \<and>
          hd tr = (fst (features ! 0), fst (features ! 1),
                   good_matches (snd (features ! 0)) (snd (features ! 1)) \<noteq> None))
     \<and> ((\<forall>d1 d2. good_matches d1 d2 \<noteq> None) \<and> 2 \<le> length features \<longrightarrow>
          find_duplicate_groups_by_sift detect good_matches min_matches image_paths = [map fst features] \<and>
          tr = map (\<lambda>p. (fst (hd features), p, True)) (tl (map fst features)))"
proof (intro conjI ballI impI)
  fix e assume e: "e \<in> set tr"
  have "\<forall>e \<in> set (sift_compared (sift_loop good_matches min_matches features
      \<lparr>sift_processed = {}, sift_groups = [], sift_compared = []\<rparr>)).
      explained good_matches min_matches (set features) e"
    by (rule sift_loop_explained) simp_all
  with e have "explained good_matches min_matches (set features) e"
    unfolding assms(3) sift_run_def assms(2) by blast
  then obtain des1 des2 where d: "(seed e, des1) \<in> set features" "(cand e, des2) \<in> set features"
    "matched e = decides good_matches min_matches des1 des2" unfolding explained_def by blast
  from d(3) have "matched e \<longleftrightarrow> good_matches des1 des2 \<noteq> None"
    by (simp add: decides_nonpositive [OF assms(1)])
  with d(1,2) show "\<exists>des1 des2. (seed e, des1) \<in> set features \<and> (cand e, des2) \<in> set features \<and>
            (matched e \<longleftrightarrow> good_matches des1 des2 \<noteq> None)" by blast
next
  assume l: "2 \<le> length features"
  then obtain path1 des1 path2 des2 rest where f: "features = (path1, des1) # (path2, des2) # rest"
    by (cases features; cases "tl features") auto
  from first_pair_compared [OF f, of good_matches min_matches] obtain more where
    "sift_compared (sift_loop good_matches min_matches features
        \<lparr>sift_processed = {}, sift_groups = [], sift_compared = []\<rparr>) =
       (path1, path2, decides good_matches min_matches des1 des2) # more" by blast
  then have t: "tr = (path1, path2, good_matches des1 des2 \<noteq> None) # more"
    unfolding assms(3) sift_run_def assms(2) [symmetric]
    by (simp add: decides_nonpositive [OF assms(1)])
  show "tr \<noteq> []" using t by simp
  show "hd tr = (fst (features ! 0), fst (features ! 1),
                   good_matches (snd (features ! 0)) (snd (features ! 1)) \<noteq> None)"
    using t f by simp
next
  assume a: "(\<forall>d1 d2. good_matches d1 d2 \<noteq> None) \<and> 2 \<le> length features"
  from never_raising_matcher_single_group [OF assms(1) conjunct1 [OF a] assms(2) conjunct2 [OF a]]
  show "find_duplicate_groups_by_sift detect good_matches min_matches image_paths = [map fst features]"
    and "tr = map (\<lambda>p. (fst (hd features), p, True)) (tl (map fst features))"
    unfolding assms(3) by blast+
qed

theorem nonpositive_min_matches_is_not_rejected_witness:
  "(0::int) < 1
   \<and> compute_features example_detect [''a.png'', ''b.png'', ''c.png''] []
       = [(''a.png'', 1), (''b.png'', 2), (''c.png'', 3)]
   \<and> partial_matches 1 2 = None
   \<and> sift_compared (sift_run example_detect partial_matches 0 [''a.png'', ''b.png'', ''c.png''])
       = [(''a.png'', ''b.png'', False), (''a.png'', ''c.png'', True)]
   \<and> find_duplicate_groups_by_sift example_detect partial_matches 0 [''a.png'', ''b.png'', ''c.png'']
       = [[''a.png'', ''c.png'']]
   \<and> hd (sift_compared (sift_run example_detect partial_matches 0 [''a.png'', ''b.png'', ''c.png'']))
       = (''a.png'', ''b.png'', partial_matches 1 2 \<noteq> None)"
proof -
  let ?tr = "sift_compared (sift_run example_detect partial_matches 0 [''a.png'', ''b.png'', ''c.png''])"
  let ?f = "compute_features example_detect [''a.png'', ''b.png'', ''c.png''] []"
  have z: "(0::int) < 1" by simp
  have f: "?f = [(''a.png'', 1), (''b.png'', 2), (''c.png'', 3)]" by code_simp
  have p: "partial_matches 1 2 = None" by code_simp
  have t: "?tr = [(''a.png'', ''b.png'', False), (''a.png'', ''c.png'', True)]" by code_simp
  have g: "find_duplicate_groups_by_sift example_detect partial_matches 0 [''a.png'', ''b.png'', ''c.png'']
       = [[''a.png'', ''c.png'']]" by code_simp
  have l: "2 \<le> length ?f" unfolding f by simp
  from nonpositive_min_matches_is_not_rejected [where min_matches = 0 and detect = example_detect
      and image_paths = "[''a.png'', ''b.png'', ''c.png'']" and good_matches = partial_matches,
      OF z refl refl] l
  have "hd ?tr = (fst (?f ! 0), fst (?f ! 1), partial_matches (snd (?f ! 0)) (snd (?f ! 1)) \<noteq> None)"
    by blast
  then have h: "hd ?tr = (''a.png'', ''b.png'', partial_matches 1 2 \<noteq> None)" unfolding f by simp
  from z f p t g h show ?thesis by blast
qed


section \<open>Properties of the check states\<close>

declare set_check_state.simps [simp del] on_selection_changed.simps [simp del]

lemma selected_count_pos:
  "j < length children \<Longrightarrow> snd (children ! j) = Checked \<Longrightarrow> selected_count children \<noteq> 0"
  by (force simp: selected_count_def filter_empty_conv in_set_conv_nth)

lemma selected_count_zero:
  "selected_count children = 0 \<Longrightarrow> j < length children \<Longrightarrow> snd (children ! j) \<noteq> Checked"
  using selected_count_pos by blast

lemma update_same_state: "j < length children \<Longrightarrow> children[j := (fst (children ! j), snd (children ! j))] = children"
  by (simp add: list_update_same_conv)

lemma update_checked_same:
  "j < length children \<Longrightarrow> snd (children ! j) = Checked \<Longrightarrow>
     children[j := (fst (children ! j), Checked)] = children"
  by (simp add: list_update_same_conv prod_eq_iff)

lemma set_check_state_kept:
  assumes "j < length children" and "selected_count (children[j := (fst (children ! j), v)]) \<noteq> 0"
  shows "set_check_state children j v = (children[j := (fst (children ! j), v)], 0)"
proof (cases "snd (children ! j) = v")
  case True
  then have "children[j := (fst (children ! j), v)] = children"
    using update_same_state [OF assms(1)] by simp
  with True show ?thesis by (simp add: set_check_state.simps)
next
  case False
  with assms show ?thesis
    by (simp add: set_check_state.simps on_selection_changed.simps)
qed

lemma set_check_state_Checked:
  assumes "j < length children"
  shows "set_check_state children j Checked = (children[j := (fst (children ! j), Checked)], 0)"
proof (rule set_check_state_kept [OF assms])
  show "selected_count (children[j := (fst (children ! j), Checked)]) \<noteq> 0"
    by (rule selected_count_pos [of j]) (use assms in simp_all)
qed


lemma set_check_state_rejected:
  assumes "j < length children" and "snd (children ! j) \<noteq> v"
    and "selected_count (children[j := (fst (children ! j), v)]) = 0"
  shows "set_check_state children j v = (children[j := (fst (children ! j), Checked)], 1)"
proof -
  let ?cs = "children[j := (fst (children ! j), v)]"
  have j: "j < length ?cs" using assms(1) by simp
  have "set_check_state children j v = on_selection_changed ?cs j 0"
    using assms(1,2) by (simp add: set_check_state.simps)
  also have "\<dots> = (case set_check_state ?cs j Checked of (children', warnings) \<Rightarrow> (children', Suc warnings))"
    using assms(3) by (simp add: on_selection_changed.simps)
  also have "set_check_state ?cs j Checked = (?cs[j := (fst (?cs ! j), Checked)], 0)"
    by (rule set_check_state_Checked [OF j])
  finally show ?thesis using assms(1) by simp
qed

text \<open>
  C2. A toggle of a file item that would leave no checked member in its group is rejected: one
  warning is shown and the group's check states are exactly those before the attempt. The same
  holds for any programmatic change of a check state in a group that has a checked member.
\<close>

theorem rejected_toggle_restores_selection:
  "(j < length children \<and>
    selected_count (children[j := (fst (children ! j),
                       if snd (children ! j) = Checked then Unchecked else Checked)]) = 0
      \<longrightarrow> toggle children j = (children, 1))
   \<and> (j < length children \<and> 1 \<le> selected_count children \<and>
       selected_count (children[j := (fst (children ! j), v)]) = 0
      \<longrightarrow> set_check_state children j v = (children, 1))"
proof (intro conjI impI)
  assume a: "j < length children \<and>
    selected_count (children[j := (fst (children ! j),
                       if snd (children ! j) = Checked then Unchecked else Checked)]) = 0"
  show "toggle children j = (children, 1)"
  proof (cases "snd (children ! j) = Checked")
    case True
    with a have "set_check_state children j Unchecked = (children[j := (fst (children ! j), Checked)], 1)"
      by (intro set_check_state_rejected) auto
    moreover have "children[j := (fst (children ! j), Checked)] = children"
      using update_checked_same [of j children] a True by simp
    ultimately show ?thesis using True by (simp add: toggle_def)
  next
    case False
    with a have "selected_count (children[j := (fst (children ! j), Checked)]) = 0" by simp
    moreover have "selected_count (children[j := (fst (children ! j), Checked)]) \<noteq> 0"
      by (rule selected_count_pos [of j]) (use a in simp_all)
    ultimately show ?thesis by simp
  qed
next
  assume a: "j < length children \<and> 1 \<le> selected_count children \<and>
       selected_count (children[j := (fst (children ! j), v)]) = 0"
  let ?cs = "children[j := (fst (children ! j), v)]"
  from a have "selected_count children \<noteq> 0" by simp
  then obtain b where b: "b < length children" "snd (children ! b) = Checked"
    by (auto simp: selected_count_def filter_empty_conv in_set_conv_nth)
  have bj: "b = j"
  proof (rule ccontr)
    assume "b \<noteq> j"
    then have "snd (?cs ! b) = Checked" "b < length ?cs" using b by simp_all
    then have "selected_count ?cs \<noteq> 0" using selected_count_pos by blast
    with a show False by simp
  qed
  have vc: "v \<noteq> Checked"
  proof
    assume "v = Checked"
    then have "snd (?cs ! j) = Checked" "j < length ?cs" using a by simp_all
    then have "selected_count ?cs \<noteq> 0" using selected_count_pos by blast
    with a show False by simp
  qed
  from b bj vc have ne: "snd (children ! j) \<noteq> v" by simp
  have "set_check_state children j v = (children[j := (fst (children ! j), Checked)], 1)"
    using a ne by (intro set_check_state_rejected) auto
  moreover have "children[j := (fst (children ! j), Checked)] = children"
    using update_checked_same [of j children] a b bj by simp
  ultimately show "set_check_state children j v = (children, 1)" by simp
qed

theorem rejected_toggle_restores_selection_witness:
  "(0::nat) < length [(''small.png'', Checked), (''big.png'', Unchecked)]
   \<and> selected_count ([(''small.png'', Checked), (''big.png'', Unchecked)][0 := (''small.png'', Unchecked)]) = 0
   \<and> toggle [(''small.png'', Checked), (''big.png'', Unchecked)] 0
       = ([(''small.png'', Checked), (''big.png'', Unchecked)], 1)"
proof -
  let ?cs = "[(''small.png'', Checked), (''big.png'', Unchecked)]"
  have l: "(0::nat) < length ?cs" by simp
  have z: "selected_count (?cs[0 := (''small.png'', Unchecked)]) = 0" by code_simp
  have z': "selected_count (?cs[0 := (fst (?cs ! 0),
                       if snd (?cs ! 0) = Checked then Unchecked else Checked)]) = 0"
    using z by simp
  from conjunct1 [OF rejected_toggle_restores_selection [of 0 ?cs]] l z'
  have "toggle ?cs 0 = (?cs, 1)" by blast
  with l z show ?thesis by blast
qed














end
